theory Spec2Isabelle
  imports Main
begin

unbundle bit_operations_syntax

section \<open>Data model\<close>

type_synonym path = string

text \<open>
  Go's \<^verbatim>\<open>fs.FileMode\<close> carries a file type and nine permission bits; the program
  reads it only through \<^verbatim>\<open>IsDir\<close>, \<^verbatim>\<open>IsRegular\<close> and \<^verbatim>\<open>Perm\<close>.
  \<^verbatim>\<open>Other\<close> stands for sockets, named pipes and devices.
\<close>

datatype ftype = Regular | Directory | Symlink | Other

text \<open>\<^verbatim>\<open>os.FileInfo\<close>: what \<^verbatim>\<open>Lstat\<close> and \<^verbatim>\<open>Stat\<close> report about one entry.\<close>

record fileinfo =
  fi_type :: ftype
  fi_perm :: nat
  fi_modTime :: int
  fi_size :: int

definition IsDir :: "fileinfo \<Rightarrow> bool" where
  "IsDir fi = (fi_type fi = Directory)"

definition IsRegular :: "fileinfo \<Rightarrow> bool" where
  "IsRegular fi = (fi_type fi = Regular)"

text \<open>\<^verbatim>\<open>config.go\<close>: the configuration record handed to the scan loop.\<close>

record GeneralConfigurations =
  SourceDirectory :: string
  DestinationDirectory :: string
  LoopIntervalMS :: int
  MaxConcurrentWorkers :: int

record Configurations =
  General :: GeneralConfigurations

section \<open>Lexical path functions of the Go library\<close>

text \<open>
  \<^verbatim>\<open>strings.Replace(s, old, new, 1)\<close>: the first occurrence of \<open>old\<close> in \<open>s\<close>
  is replaced by \<open>new\<close>; equal \<open>old\<close> and \<open>new\<close> return \<open>s\<close>; an empty \<open>old\<close>
  matches at the start of \<open>s\<close>.
\<close>

fun replace_at_first :: "string \<Rightarrow> string \<Rightarrow> string \<Rightarrow> string" where
  "replace_at_first [] old new = []"
| "replace_at_first (c # cs) old new =
     (if take (length old) (c # cs) = old then new @ drop (length old) (c # cs)
      else c # replace_at_first cs old new)"

definition strings_Replace1 :: "string \<Rightarrow> string \<Rightarrow> string \<Rightarrow> string" where
  "strings_Replace1 s old new =
     (if old = new then s
      else if old = [] then new @ s
      else replace_at_first s old new)"

text \<open>
  \<^verbatim>\<open>filepath.Clean\<close> on a Unix path: empty and \<^verbatim>\<open>.\<close> elements are dropped, an
  inner \<^verbatim>\<open>..\<close> removes the element before it, a \<^verbatim>\<open>..\<close> at the start of a rooted
  path is dropped, and the empty result is \<^verbatim>\<open>.\<close>.
\<close>

fun split_slash :: "string \<Rightarrow> string list" where
  "split_slash [] = [[]]"
| "split_slash (c # cs) =
     (if c = CHR ''/'' then [] # split_slash cs
      else (case split_slash cs of [] \<Rightarrow> [[c]] | x # xs \<Rightarrow> (c # x) # xs))"

fun join_slash :: "string list \<Rightarrow> string" where
  "join_slash [] = []"
| "join_slash [x] = x"
| "join_slash (x # y # ys) = x @ ''/'' @ join_slash (y # ys)"

text \<open>The elements kept so far are held in reverse, the last one first.\<close>

definition clean_step :: "bool \<Rightarrow> string list \<Rightarrow> string \<Rightarrow> string list" where
  "clean_step rooted acc c =
     (if c = [] \<or> c = ''.'' then acc
      else if c = ''..'' then
        (case acc of
           [] \<Rightarrow> (if rooted then [] else [''..''])
         | t # ts \<Rightarrow> (if t = ''..'' then ''..'' # t # ts else ts))
      else c # acc)"

definition Clean :: "path \<Rightarrow> path" where
  "Clean p =
     (if p = [] then ''.''
      else
        let rooted = (hd p = CHR ''/'');
            elems = rev (foldl (clean_step rooted) [] (split_slash p));
            out = (if rooted then ''/'' else []) @ join_slash elems
        in if out = [] then ''.'' else out)"

text \<open>\<^verbatim>\<open>filepath.Join\<close> of two elements: empty elements are ignored, the rest is cleaned.\<close>

definition Join :: "path \<Rightarrow> path \<Rightarrow> path" where
  "Join a b =
     (if a \<noteq> [] then Clean (a @ ''/'' @ b)
      else if b \<noteq> [] then Clean b
      else [])"

text \<open>
  \<^verbatim>\<open>filepath.Dir\<close>: everything up to and including the last slash, cleaned.
\<close>

fun upto_last_slash :: "string \<Rightarrow> string" where
  "upto_last_slash [] = []"
| "upto_last_slash (c # cs) =
     (if CHR ''/'' \<in> set (c # cs) then c # upto_last_slash cs else [])"

definition Dir :: "path \<Rightarrow> path" where
  "Dir p = Clean (upto_last_slash p)"

section \<open>Errors and panics\<close>

text \<open>The error numbers of the operating system that the model tells apart.\<close>

datatype oserr = ENOENT | EEXIST | EISDIR | ENOTDIR | ELOOP | ENXIO | EACCES

text \<open>
  What a \<^verbatim>\<open>filepath.WalkFunc\<close> may return besides nil: the two sentinel values, or
  an error.
\<close>

datatype walkerr = SkipDir | SkipAll | Err oserr

text \<open>Every way in which the program stops the process.\<close>

datatype panic =
    PanicErr oserr
  | PanicWalk walkerr
  | NegativeWaitGroup
  | NilDereference
  | SizeMismatch int int

section \<open>The wait group\<close>

text \<open>
  \<^verbatim>\<open>sync.WaitGroup\<close>: a counter; \<^verbatim>\<open>Add\<close> panics when the counter would become
  negative, \<^verbatim>\<open>Done\<close> is \<^verbatim>\<open>Add(-1)\<close>, and \<^verbatim>\<open>Wait\<close> returns once the counter
  is zero. The counter is taken as an unbounded integer.
\<close>

definition wg_Add :: "int \<Rightarrow> int \<Rightarrow> panic + int" where
  "wg_Add wg delta = (if wg + delta < 0 then Inl NegativeWaitGroup else Inr (wg + delta))"

definition wg_Done :: "int \<Rightarrow> panic + int" where
  "wg_Done wg = wg_Add wg (- 1)"

section \<open>The planner: \<^verbatim>\<open>processChanges\<close>\<close>

text \<open>
  A snapshot is a Go map from relative path to \<^verbatim>\<open>os.FileInfo\<close> (which may be nil).
  The order in which \<^verbatim>\<open>range\<close> visits a map is not fixed; a snapshot is given here
  as the list of its entries in the order of the visit, so every statement about all
  lists with distinct keys is a statement about all maps and all visiting orders.
\<close>

type_synonym snapshot = "(path \<times> fileinfo option) list"

text \<open>
  The closures appended to \<^verbatim>\<open>jobFunctions\<close>, with the values they capture:
  \<^verbatim>\<open>writeFile(p1, p2, p3, wg)\<close> and \<^verbatim>\<open>deleteFile(p1, p2, wg)\<close>.
\<close>

datatype job =
    is_Write: WriteJob path "fileinfo option" path
  | is_Delete: DeleteJob "fileinfo option" path

definition write_job :: "Configurations \<Rightarrow> path \<times> fileinfo option \<Rightarrow> job" where
  "write_job configs e =
     WriteJob (Join (SourceDirectory (General configs)) (fst e)) (snd e)
              (DestinationDirectory (General configs) @ fst e)"

definition delete_job :: "Configurations \<Rightarrow> path \<times> fileinfo option \<Rightarrow> job" where
  "delete_job configs e =
     DeleteJob (snd e) (Join (DestinationDirectory (General configs)) (fst e))"

text \<open>\<^verbatim>\<open>delete(destFiles, srcPath)\<close>\<close>

definition delete_key :: "path \<Rightarrow> snapshot \<Rightarrow> snapshot" where
  "delete_key k m = filter (\<lambda>e. fst e \<noteq> k) m"

text \<open>The first loop, over the source snapshot.\<close>

fun write_loop ::
  "Configurations \<Rightarrow> snapshot \<Rightarrow> snapshot \<Rightarrow> int \<Rightarrow> job list
     \<Rightarrow> panic + (snapshot \<times> int \<times> job list)" where
  "write_loop configs [] destFiles wg jobFunctions = Inr (destFiles, wg, jobFunctions)"
| "write_loop configs (e # rest) destFiles wg jobFunctions =
     (if fst e \<in> set (map fst destFiles) then
        (case wg_Done wg of
           Inl p \<Rightarrow> Inl p
         | Inr wg' \<Rightarrow>
             write_loop configs rest (delete_key (fst e) destFiles) wg'
               (jobFunctions @ [write_job configs e]))
      else write_loop configs rest destFiles wg (jobFunctions @ [write_job configs e]))"

text \<open>The second loop, over what is left of the destination snapshot.\<close>

fun delete_loop :: "Configurations \<Rightarrow> snapshot \<Rightarrow> job list \<Rightarrow> job list" where
  "delete_loop configs [] jobFunctions = jobFunctions"
| "delete_loop configs (e # rest) jobFunctions =
     delete_loop configs rest (jobFunctions @ [delete_job configs e])"

definition processChanges ::
  "Configurations \<Rightarrow> snapshot \<Rightarrow> snapshot \<Rightarrow> int \<Rightarrow> panic + (job list \<times> int)" where
  "processChanges configs srcFiles destFiles wg =
     (case write_loop configs srcFiles destFiles wg [] of
        Inl p \<Rightarrow> Inl p
      | Inr (destFiles', wg', jobFunctions) \<Rightarrow>
          Inr (delete_loop configs destFiles' jobFunctions, wg'))"

text \<open>
  Lines 26 to 31 of \<^verbatim>\<open>RunScanLoop\<close>: a fresh wait group, \<^verbatim>\<open>wg.Add\<close> of both
  lengths, then the planner. The result is the list of operations and the counter
  that \<^verbatim>\<open>wg.Wait\<close> will wait on.
\<close>

definition plan_cycle ::
  "Configurations \<Rightarrow> snapshot \<Rightarrow> snapshot \<Rightarrow> panic + (job list \<times> int)" where
  "plan_cycle configs srcFiles destFiles =
     (case wg_Add 0 (int (length srcFiles) + int (length destFiles)) of
        Inl p \<Rightarrow> Inl p
      | Inr wg \<Rightarrow> processChanges configs srcFiles destFiles wg)"

definition keys :: "snapshot \<Rightarrow> path set" where
  "keys m = fst ` set m"

definition orphans :: "snapshot \<Rightarrow> snapshot \<Rightarrow> snapshot" where
  "orphans srcFiles destFiles = filter (\<lambda>e. fst e \<notin> keys srcFiles) destFiles"

section \<open>The tree scanner: \<^verbatim>\<open>filepath.Walk\<close> and \<^verbatim>\<open>getDirFiles\<close>\<close>

text \<open>
  What a walk can observe of a directory tree. A node carries what \<^verbatim>\<open>Lstat\<close>
  reports for it, the error of reading its directory if there is one, and its entries
  in the order \<^verbatim>\<open>readDirNames\<close> returns them. An entry is a name with its subtree,
  or a name whose \<^verbatim>\<open>Lstat\<close> fails. The listing of a node that is not a directory is
  never read.
\<close>

datatype fstree = Node fileinfo "oserr option" entries
and entries =
    NoMore
  | Child string fstree entries
  | Broken string oserr entries

fun tree_info :: "fstree \<Rightarrow> fileinfo" where
  "tree_info (Node info rderr names) = info"

text \<open>
  The callback receives the path, the file info (nil when \<^verbatim>\<open>Lstat\<close> failed) and
  the error met at that path, and returns an error or nil; \<open>'s\<close> is the state the
  closure captures.
\<close>

type_synonym 's WalkFunc =
  "'s \<Rightarrow> path \<Rightarrow> fileinfo option \<Rightarrow> oserr option \<Rightarrow> walkerr option \<times> 's"

text \<open>\<^verbatim>\<open>filepath.walk\<close> and its loop over the names of a directory.\<close>

fun walk :: "'s WalkFunc \<Rightarrow> path \<Rightarrow> fstree \<Rightarrow> 's \<Rightarrow> walkerr option \<times> 's"
and walk_names :: "'s WalkFunc \<Rightarrow> path \<Rightarrow> entries \<Rightarrow> 's \<Rightarrow> walkerr option \<times> 's"
where
  "walk walkFn p (Node info rderr names) s =
     (if \<not> IsDir info then walkFn s p (Some info) None
      else
        (case walkFn s p (Some info) rderr of (err1, s') \<Rightarrow>
           if rderr \<noteq> None \<or> err1 \<noteq> None then (err1, s')
           else walk_names walkFn p names s'))"
| "walk_names walkFn p NoMore s = (None, s)"
| "walk_names walkFn p (Broken name err rest) s =
     (case walkFn s (Join p name) None (Some err) of (e, s') \<Rightarrow>
        if e \<noteq> None \<and> e \<noteq> Some SkipDir \<and> e \<noteq> Some SkipAll then (e, s')
        else walk_names walkFn p rest s')"
| "walk_names walkFn p (Child name t rest) s =
     (case walk walkFn (Join p name) t s of (e, s') \<Rightarrow>
        if e \<noteq> None \<and> (\<not> IsDir (tree_info t) \<or> e \<noteq> Some SkipDir) then (e, s')
        else walk_names walkFn p rest s')"

text \<open>
  \<^verbatim>\<open>filepath.Walk\<close>: the root is given as \<^verbatim>\<open>Lstat\<close> finds it, \<open>Inl\<close> when
  \<^verbatim>\<open>Lstat(root)\<close> fails. The sentinel values become nil.
\<close>

definition Walk :: "path \<Rightarrow> oserr + fstree \<Rightarrow> 's WalkFunc \<Rightarrow> 's \<Rightarrow> walkerr option \<times> 's" where
  "Walk root tree fn s =
     (case (case tree of
              Inl err \<Rightarrow> fn s root None (Some err)
            | Inr t \<Rightarrow> walk fn root t s) of
        (err, s') \<Rightarrow>
          if err = Some SkipDir \<or> err = Some SkipAll then (None, s') else (err, s'))"

text \<open>The map \<^verbatim>\<open>files\<close> that the scanner fills; the stored value may be nil.\<close>

type_synonym filemap = "path \<rightharpoonup> fileinfo option"

text \<open>The function literal passed to \<^verbatim>\<open>filepath.Walk\<close> (lines 269 to 279).\<close>

definition getDirFiles_fn :: "path \<Rightarrow> filemap WalkFunc" where
  "getDirFiles_fn srcDir files p info err =
     (if srcDir \<noteq> p
      then (None, files(strings_Replace1 p srcDir [] \<mapsto> info))
      else (None, files))"

definition getDirFiles :: "path \<Rightarrow> oserr + fstree \<Rightarrow> panic + filemap" where
  "getDirFiles srcDir tree =
     (case Walk srcDir tree (getDirFiles_fn srcDir) Map.empty of
        (Some err, files) \<Rightarrow> Inl (PanicWalk err)
      | (None, files) \<Rightarrow> Inr files)"

section \<open>The file system\<close>

text \<open>
  One entry of the file system: its type, permission bits, modification time, the size
  that \<^verbatim>\<open>Stat\<close> reports, the bytes a read returns, and the target when it is a
  symbolic link. Size and content are separate, as they are for the files of
  \<^verbatim>\<open>/proc\<close>, whose reported size is zero.
\<close>

record node =
  n_type :: ftype
  n_perm :: nat
  n_mtime :: int
  n_size :: int
  n_data :: string
  n_target :: path

definition info_of :: "node \<Rightarrow> fileinfo" where
  "info_of n =
     \<lparr>fi_type = n_type n, fi_perm = n_perm n, fi_modTime = n_mtime n, fi_size = n_size n\<rparr>"

text \<open>The two lines the program prints, with the time of printing.\<close>

datatype logline = LogWrite int path | LogRemove int path

text \<open>
  The world an operation runs in: the file table, the umask of the process, the clock
  and the standard output. The table is keyed by the path string as the program passes
  it; two spellings of one location are two keys.
\<close>

record world =
  ftable :: "path \<rightharpoonup> node"
  umask :: nat
  now :: int
  out :: "logline list"

text \<open>
  Following symbolic links at the last element of a path, at most forty of them. The
  result is the path reached, which may be absent from the table.
\<close>

fun follow :: "nat \<Rightarrow> (path \<rightharpoonup> node) \<Rightarrow> path \<Rightarrow> oserr + path" where
  "follow 0 fs p = Inl ELOOP"
| "follow (Suc k) fs p =
     (case fs p of
        None \<Rightarrow> Inr p
      | Some n \<Rightarrow> (if n_type n = Symlink then follow k fs (n_target n) else Inr p))"

definition resolve :: "(path \<rightharpoonup> node) \<Rightarrow> path \<Rightarrow> oserr + path" where
  "resolve fs p = follow 41 fs p"

definition os_Lstat :: "world \<Rightarrow> path \<Rightarrow> oserr + fileinfo" where
  "os_Lstat w p = (case ftable w p of None \<Rightarrow> Inl ENOENT | Some n \<Rightarrow> Inr (info_of n))"

definition os_Stat :: "world \<Rightarrow> path \<Rightarrow> oserr + fileinfo" where
  "os_Stat w p =
     (case resolve (ftable w) p of
        Inl e \<Rightarrow> Inl e
      | Inr q \<Rightarrow> (case ftable w q of None \<Rightarrow> Inl ENOENT | Some n \<Rightarrow> Inr (info_of n)))"

definition os_Chmod :: "world \<Rightarrow> path \<Rightarrow> nat \<Rightarrow> oserr + world" where
  "os_Chmod w p m =
     (case resolve (ftable w) p of
        Inl e \<Rightarrow> Inl e
      | Inr q \<Rightarrow>
          (case ftable w q of
             None \<Rightarrow> Inl ENOENT
           | Some n \<Rightarrow> Inr (w\<lparr>ftable := (ftable w)(q \<mapsto> n\<lparr>n_perm := m\<rparr>)\<rparr>)))"

text \<open>\<^verbatim>\<open>os.Chtimes(path, t, t)\<close>; the access time is not modelled.\<close>

definition os_Chtimes :: "world \<Rightarrow> path \<Rightarrow> int \<Rightarrow> oserr + world" where
  "os_Chtimes w p t =
     (case resolve (ftable w) p of
        Inl e \<Rightarrow> Inl e
      | Inr q \<Rightarrow>
          (case ftable w q of
             None \<Rightarrow> Inl ENOENT
           | Some n \<Rightarrow> Inr (w\<lparr>ftable := (ftable w)(q \<mapsto> n\<lparr>n_mtime := t\<rparr>)\<rparr>)))"

text \<open>The permission bits a new entry gets: those asked for, less the umask.\<close>

definition masked :: "world \<Rightarrow> nat \<Rightarrow> nat" where
  "masked w perm = perm - (perm AND umask w)"

definition new_dir :: "world \<Rightarrow> nat \<Rightarrow> node" where
  "new_dir w perm =
     \<lparr>n_type = Directory, n_perm = masked w perm, n_mtime = now w, n_size = 0,
      n_data = [], n_target = []\<rparr>"

definition new_file :: "world \<Rightarrow> nat \<Rightarrow> node" where
  "new_file w perm =
     \<lparr>n_type = Regular, n_perm = masked w perm, n_mtime = now w, n_size = 0,
      n_data = [], n_target = []\<rparr>"

text \<open>\<^verbatim>\<open>os.Mkdir\<close>: the path must be free and its parent a directory.\<close>

definition os_Mkdir :: "world \<Rightarrow> path \<Rightarrow> nat \<Rightarrow> oserr + world" where
  "os_Mkdir w p perm =
     (if ftable w p \<noteq> None then Inl EEXIST
      else
        (case os_Stat w (Dir p) of
           Inl e \<Rightarrow> Inl e
         | Inr parent \<Rightarrow>
             (if \<not> IsDir parent then Inl ENOTDIR
              else Inr (w\<lparr>ftable := (ftable w)(p \<mapsto> new_dir w perm)\<rparr>))))"

text \<open>
  The parent that \<^verbatim>\<open>os.MkdirAll\<close> recurses on: trailing separators are skipped,
  then the last element, and what is left, without its final separator, is the parent
  when it is longer than one character.
\<close>

definition mkdirall_parent :: "path \<Rightarrow> path option" where
  "mkdirall_parent p =
     (let upto_i = dropWhile (\<lambda>c. c = CHR ''/'') (rev p);
          upto_j = dropWhile (\<lambda>c. c \<noteq> CHR ''/'') upto_i
      in if 1 < length upto_j then Some (rev (tl upto_j)) else None)"

function os_MkdirAll :: "world \<Rightarrow> path \<Rightarrow> nat \<Rightarrow> oserr + world" where
  "os_MkdirAll w p perm =
     (case os_Stat w p of
        Inr dir \<Rightarrow> (if IsDir dir then Inr w else Inl ENOTDIR)
      | Inl err \<Rightarrow>
          (case (case mkdirall_parent p of
                   None \<Rightarrow> Inr w
                 | Some parent \<Rightarrow> os_MkdirAll w parent perm) of
             Inl e \<Rightarrow> Inl e
           | Inr w' \<Rightarrow>
               (case os_Mkdir w' p perm of
                  Inr w'' \<Rightarrow> Inr w''
                | Inl e \<Rightarrow>
                    (case os_Lstat w' p of
                       Inr dir \<Rightarrow> (if IsDir dir then Inr w' else Inl e)
                     | Inl err1 \<Rightarrow> Inl e))))"
  by pat_completeness auto
termination
proof (relation "measure (\<lambda>(w, p, perm). length p)")
  show "wf (measure (\<lambda>(w, p, perm). length p))" by simp
next
  fix w :: world and p :: path and perm :: nat and err :: oserr and parent :: path
  assume a: "mkdirall_parent p = Some parent"
  let ?i = "dropWhile (\<lambda>c. c = CHR ''/'') (rev p)"
  let ?j = "dropWhile (\<lambda>c. c \<noteq> CHR ''/'') ?i"
  have "length ?j \<le> length ?i" by (rule length_dropWhile_le)
  also have "\<dots> \<le> length (rev p)" by (rule length_dropWhile_le)
  finally have le: "length ?j \<le> length p" by simp
  from a have "1 < length ?j" and "parent = rev (tl ?j)"
    by (auto simp: mkdirall_parent_def Let_def split: if_splits)
  with le have "length parent < length p" by simp
  then show "((w, parent, perm), (w, p, perm)) \<in> measure (\<lambda>(w, p, perm). length p)"
    by simp
qed

declare os_MkdirAll.simps [simp del]

text \<open>
  \<^verbatim>\<open>os.Open\<close> for reading and \<^verbatim>\<open>os.Create\<close>; a handle is the path the name
  resolves to. \<^verbatim>\<open>Create\<close> truncates a regular file, makes a new one with mode 0666
  less the umask where the path is free and its parent a directory, and fails on a
  directory or a special file.
\<close>

definition os_Open :: "world \<Rightarrow> path \<Rightarrow> oserr + path" where
  "os_Open w p =
     (case resolve (ftable w) p of
        Inl e \<Rightarrow> Inl e
      | Inr q \<Rightarrow> (case ftable w q of None \<Rightarrow> Inl ENOENT | Some n \<Rightarrow> Inr q))"

definition os_Create :: "world \<Rightarrow> path \<Rightarrow> oserr + (world \<times> path)" where
  "os_Create w p =
     (case resolve (ftable w) p of
        Inl e \<Rightarrow> Inl e
      | Inr q \<Rightarrow>
          (case ftable w q of
             Some n \<Rightarrow>
               (if n_type n = Directory then Inl EISDIR
                else if n_type n = Regular then
                  Inr (w\<lparr>ftable := (ftable w)
                         (q \<mapsto> n\<lparr>n_mtime := now w, n_size := 0, n_data := []\<rparr>)\<rparr>, q)
                else Inl ENXIO)
           | None \<Rightarrow>
               (case os_Stat w (Dir q) of
                  Inl e \<Rightarrow> Inl e
                | Inr parent \<Rightarrow>
                    (if \<not> IsDir parent then Inl ENOTDIR
                     else Inr (w\<lparr>ftable := (ftable w)(q \<mapsto> new_file w 438)\<rparr>, q)))))"

text \<open>
  \<^verbatim>\<open>io.Copy(destination, source)\<close>: everything a read of the source returns is
  written to the destination; the result is the number of bytes written.
\<close>

definition io_Copy :: "world \<Rightarrow> path \<Rightarrow> path \<Rightarrow> oserr + (int \<times> world)" where
  "io_Copy w destination source =
     (let bytes = (case ftable w source of None \<Rightarrow> [] | Some n \<Rightarrow> n_data n)
      in case ftable w destination of
           None \<Rightarrow> Inr (int (length bytes), w)
         | Some d \<Rightarrow>
             Inr (int (length bytes),
                  w\<lparr>ftable := (ftable w)
                     (destination \<mapsto>
                        d\<lparr>n_mtime := now w, n_size := int (length bytes), n_data := bytes\<rparr>)\<rparr>))"

definition printf :: "world \<Rightarrow> (int \<Rightarrow> path \<Rightarrow> logline) \<Rightarrow> path \<Rightarrow> world" where
  "printf w line p = w\<lparr>out := out w @ [line (now w) p]\<rparr>"

section \<open>The file operations\<close>

text \<open>
  \<^verbatim>\<open>validateDirExistance\<close> calls itself on the parent as long as the source path
  is not a directory; nothing in the code bounds the number of calls, so the result is
  \<open>None\<close> when it does not return.
\<close>

partial_function (option) validateDirExistance ::
  "world \<Rightarrow> path \<Rightarrow> path \<Rightarrow> (panic + world) option" where
  "validateDirExistance w srcPath destPath =
     (case os_Stat w srcPath of
        Inl err \<Rightarrow> Some (Inl (PanicErr err))
      | Inr srcPathInfo \<Rightarrow>
          (if IsDir srcPathInfo then
             (case os_Stat w destPath of
                Inr dest \<Rightarrow>
                  (case os_Chmod w destPath (fi_perm srcPathInfo) of
                     Inl err \<Rightarrow> Some (Inl (PanicErr err))
                   | Inr w' \<Rightarrow> Some (Inr w'))
              | Inl err \<Rightarrow>
                  (if err = ENOENT then
                     (case os_MkdirAll w destPath (fi_perm srcPathInfo) of
                        Inl err \<Rightarrow> Some (Inl (PanicErr err))
                      | Inr w' \<Rightarrow> Some (Inr (printf w' LogWrite destPath)))
                   else Some (Inl (PanicErr err))))
           else validateDirExistance w (Dir srcPath) (Dir destPath)))"

definition copyFile :: "world \<Rightarrow> path \<Rightarrow> path \<Rightarrow> panic + world" where
  "copyFile w src dst =
     (case os_Stat w src of
        Inl err \<Rightarrow> Inl (PanicErr err)
      | Inr sourceFileStat \<Rightarrow>
          (if \<not> IsRegular sourceFileStat then Inr w
           else
             (case os_Open w src of
                Inl err \<Rightarrow> Inl (PanicErr err)
              | Inr source \<Rightarrow>
                  (case os_Create w dst of
                     Inl err \<Rightarrow> Inl (PanicErr err)
                   | Inr (w', destination) \<Rightarrow>
                       (case io_Copy w' destination source of
                          Inl err \<Rightarrow> Inl (PanicErr err)
                        | Inr (written, w'') \<Rightarrow>
                            (if written \<noteq> fi_size sourceFileStat
                             then Inl (SizeMismatch written (fi_size sourceFileStat))
                             else Inr w''))))))"

text \<open>
  Lines 186 to 199 of \<^verbatim>\<open>writeFile\<close>: the copy, then the permission bits and the
  modification time of the source record, then the log line.
\<close>

definition write_copy :: "world \<Rightarrow> path \<Rightarrow> fileinfo \<Rightarrow> path \<Rightarrow> panic + world" where
  "write_copy w srcPath srcFile p =
     (case copyFile w srcPath p of
        Inl pn \<Rightarrow> Inl pn
      | Inr w1 \<Rightarrow>
          (case os_Chmod w1 p (fi_perm srcFile) of
             Inl err \<Rightarrow> Inl (PanicErr err)
           | Inr w2 \<Rightarrow>
               (case os_Chtimes w2 p (fi_modTime srcFile) of
                  Inl err \<Rightarrow> Inl (PanicErr err)
                | Inr w3 \<Rightarrow> Inr (printf w3 LogWrite p))))"

text \<open>
  \<^verbatim>\<open>writeFile\<close>, without the deferred \<^verbatim>\<open>wg.Done\<close>, which belongs to the cycle.
  The source record comes from the snapshot and may be nil.
\<close>

definition writeFile ::
  "world \<Rightarrow> path \<Rightarrow> fileinfo option \<Rightarrow> path \<Rightarrow> (panic + world) option" where
  "writeFile w srcPath srcFile p =
     (case validateDirExistance w srcPath p of
        None \<Rightarrow> None
      | Some (Inl pn) \<Rightarrow> Some (Inl pn)
      | Some (Inr w1) \<Rightarrow>
          (case srcFile of
             None \<Rightarrow> Some (Inl NilDereference)
           | Some sf \<Rightarrow>
               (if \<not> IsDir sf then
                  (case os_Stat w1 p of
                     Inr file \<Rightarrow>
                       (if fi_modTime file = fi_modTime sf then Some (Inr w1)
                        else Some (write_copy w1 srcPath sf p))
                   | Inl err \<Rightarrow>
                       (if err \<noteq> ENOENT then Some (Inl (PanicErr err))
                        else Some (write_copy w1 srcPath sf p)))
                else Some (Inr w1))))"

section \<open>The scan loop: \<^verbatim>\<open>RunScanLoop\<close>\<close>

text \<open>
  The driver and the goroutines it starts are interleaved, one event at a time. The
  state of a cycle holds the operations planned for it with the status of each, the
  counter of its wait group, the place the driver has reached, and the worker
  goroutines of the bounded branch. What an operation does to the file system while
  it runs is not part of this state.
\<close>

text \<open>
  The places of the driver: the loop that starts the workers (line 51), the loop that
  launches or sends the operations (lines 36 and 69) with the index of the next one,
  \<^verbatim>\<open>wg.Wait()\<close>, the loop that sends the done signals (line 77), and
  \<^verbatim>\<open>time.Sleep\<close> at the end of the cycle.
\<close>

datatype dpc = StartWorkers nat | Launch nat | Wait | Signal nat | Sleep

text \<open>
  An operation is not yet launched, launched and waiting (its goroutine has not begun,
  or it sits in the channel), running, or finished: its function has returned and the
  deferred \<^verbatim>\<open>wg.Done\<close> has run.
\<close>

datatype jstat = NotLaunched | Pending | Running | Finished

text \<open>A worker waits in its \<^verbatim>\<open>select\<close>, runs an operation, or has returned.\<close>

datatype wstat = Idle | Busy | Exited

record loop_state =
  l_cycle :: nat
  l_jobs :: "job list"
  l_wg :: int
  l_pc :: dpc
  l_stat :: "jstat list"
  l_workers :: "wstat list"
  l_crashed :: bool

definition count_stat :: "jstat \<Rightarrow> jstat list \<Rightarrow> nat" where
  "count_stat t st = length (filter (\<lambda>u. u = t) st)"

definition unfinished :: "jstat list \<Rightarrow> nat" where
  "unfinished st = length (filter (\<lambda>u. u \<noteq> Finished) st)"

text \<open>
  The head of the loop body, lines 21 to 31: both scans, given by the snapshots they
  return, the wait group and the planner. The channel of the bounded branch holds the
  pending operations; its order plays no part and is not kept.
\<close>

definition start_cycle :: "Configurations \<Rightarrow> nat \<Rightarrow> snapshot \<Rightarrow> snapshot \<Rightarrow> loop_state" where
  "start_cycle configs n srcFiles destFiles =
     (case plan_cycle configs srcFiles destFiles of
        Inl p \<Rightarrow>
          \<lparr>l_cycle = n, l_jobs = [], l_wg = 0, l_pc = Wait, l_stat = [], l_workers = [],
           l_crashed = True\<rparr>
      | Inr (jobFuncs, wg) \<Rightarrow>
          \<lparr>l_cycle = n, l_jobs = jobFuncs, l_wg = wg,
           l_pc = (if MaxConcurrentWorkers (General configs) < 1 then Launch 0
                   else StartWorkers 0),
           l_stat = replicate (length jobFuncs) NotLaunched, l_workers = [],
           l_crashed = False\<rparr>)"

text \<open>
  The events. \<open>EvLaunch\<close> is \<^verbatim>\<open>go jobFunc()\<close> in the unbounded branch and the send
  \<^verbatim>\<open>workerChannels <- jobFunc\<close> in the bounded one, which needs room in the channel.
  \<open>EvLoopEnd\<close> leaves a finished \<^verbatim>\<open>for\<close> loop. \<open>EvBegin\<close> and \<open>EvReturn\<close> are
  the start and the return of the goroutine of an operation; \<open>EvReceive\<close> and
  \<open>EvWorkerReturn\<close> are a worker taking an operation from the channel and coming
  back from it. \<open>EvPanic\<close> is a panic inside a running operation, which ends the
  process. \<open>EvWaitPass\<close> is the return of \<^verbatim>\<open>wg.Wait()\<close>, \<open>EvSendDone\<close> one
  \<^verbatim>\<open>doneSignal <- 0\<close> taken by a waiting worker, and \<open>EvNextCycle\<close> the end of
  the sleep and the head of the next loop body.
\<close>

datatype event =
    EvStartWorker
  | EvLoopEnd
  | EvLaunch
  | EvBegin nat
  | EvReturn nat
  | EvReceive nat nat
  | EvWorkerReturn nat nat
  | EvPanic nat
  | EvWaitPass
  | EvSendDone nat
  | EvNextCycle snapshot snapshot

text \<open>The return of an operation: the deferred \<^verbatim>\<open>wg.Done()\<close>.\<close>

definition job_done :: "loop_state \<Rightarrow> nat \<Rightarrow> loop_state" where
  "job_done s i =
     (case wg_Done (l_wg s) of
        Inl p \<Rightarrow> s\<lparr>l_crashed := True\<rparr>
      | Inr wg' \<Rightarrow> s\<lparr>l_wg := wg', l_stat := (l_stat s)[i := Finished]\<rparr>)"

definition fire :: "Configurations \<Rightarrow> event \<Rightarrow> loop_state \<Rightarrow> loop_state option" where
  "fire configs ev s =
     (let k = MaxConcurrentWorkers (General configs) in
      if l_crashed s then None
      else
        (case ev of
           EvStartWorker \<Rightarrow>
             (case l_pc s of
                StartWorkers i \<Rightarrow>
                  (if int i < k
                   then Some (s\<lparr>l_workers := l_workers s @ [Idle], l_pc := StartWorkers (Suc i)\<rparr>)
                   else None)
              | _ \<Rightarrow> None)
         | EvLoopEnd \<Rightarrow>
             (case l_pc s of
                StartWorkers i \<Rightarrow> (if int i < k then None else Some (s\<lparr>l_pc := Launch 0\<rparr>))
              | Launch i \<Rightarrow>
                  (if i < length (l_jobs s) then None else Some (s\<lparr>l_pc := Wait\<rparr>))
              | Signal n \<Rightarrow> (if int n < k then None else Some (s\<lparr>l_pc := Sleep\<rparr>))
              | _ \<Rightarrow> None)
         | EvLaunch \<Rightarrow>
             (case l_pc s of
                Launch i \<Rightarrow>
                  (if i < length (l_jobs s)
                      \<and> (k < 1 \<or> int (count_stat Pending (l_stat s)) < k)
                   then Some (s\<lparr>l_stat := (l_stat s)[i := Pending], l_pc := Launch (Suc i)\<rparr>)
                   else None)
              | _ \<Rightarrow> None)
         | EvBegin i \<Rightarrow>
             (if k < 1 \<and> i < length (l_stat s) \<and> l_stat s ! i = Pending
              then Some (s\<lparr>l_stat := (l_stat s)[i := Running]\<rparr>)
              else None)
         | EvReturn i \<Rightarrow>
             (if k < 1 \<and> i < length (l_stat s) \<and> l_stat s ! i = Running
              then Some (job_done s i)
              else None)
         | EvReceive w i \<Rightarrow>
             (if 1 \<le> k \<and> w < length (l_workers s) \<and> l_workers s ! w = Idle
                 \<and> i < length (l_stat s) \<and> l_stat s ! i = Pending
              then Some (s\<lparr>l_stat := (l_stat s)[i := Running],
                           l_workers := (l_workers s)[w := Busy]\<rparr>)
              else None)
         | EvWorkerReturn w i \<Rightarrow>
             (if 1 \<le> k \<and> w < length (l_workers s) \<and> l_workers s ! w = Busy
                 \<and> i < length (l_stat s) \<and> l_stat s ! i = Running
              then Some (job_done (s\<lparr>l_workers := (l_workers s)[w := Idle]\<rparr>) i)
              else None)
         | EvPanic i \<Rightarrow>
             (if i < length (l_stat s) \<and> l_stat s ! i = Running
              then Some (s\<lparr>l_crashed := True\<rparr>)
              else None)
         | EvWaitPass \<Rightarrow>
             (if l_pc s = Wait \<and> l_wg s = 0
              then Some (s\<lparr>l_pc := (if k < 1 then Sleep else Signal 0)\<rparr>)
              else None)
         | EvSendDone w \<Rightarrow>
             (case l_pc s of
                Signal n \<Rightarrow>
                  (if int n < k \<and> w < length (l_workers s) \<and> l_workers s ! w = Idle
                   then Some (s\<lparr>l_workers := (l_workers s)[w := Exited],
                                l_pc := Signal (Suc n)\<rparr>)
                   else None)
              | _ \<Rightarrow> None)
         | EvNextCycle srcFiles destFiles \<Rightarrow>
             (if l_pc s = Sleep \<and> distinct (map fst srcFiles) \<and> distinct (map fst destFiles)
              then Some (start_cycle configs (Suc (l_cycle s)) srcFiles destFiles)
              else None)))"

text \<open>A schedule is a list of events; it runs as long as each event can fire.\<close>

fun run :: "Configurations \<Rightarrow> loop_state \<Rightarrow> event list \<Rightarrow> loop_state option" where
  "run configs s [] = Some s"
| "run configs s (ev # evs) =
     (case fire configs ev s of None \<Rightarrow> None | Some s' \<Rightarrow> run configs s' evs)"

section \<open>Predicates and example worlds used in the statements\<close>

text \<open>
  What \<^verbatim>\<open>os.MkdirAll\<close> changes when it succeeds: entries that exist stay as they
  are, and every entry it adds is a directory with the permission bits asked for, less
  the umask.
\<close>

definition only_adds_dirs :: "world \<Rightarrow> nat \<Rightarrow> world \<Rightarrow> bool" where
  "only_adds_dirs w perm w' \<longleftrightarrow>
     umask w' = umask w \<and> now w' = now w \<and> out w' = out w
     \<and> (\<forall>q. ftable w' q = ftable w q
             \<or> (ftable w q = None \<and> ftable w' q = Some (new_dir w perm)))"

text \<open>Entries and worlds for the concrete cases.\<close>

definition mk_dir :: "nat \<Rightarrow> int \<Rightarrow> node" where
  "mk_dir perm t =
     \<lparr>n_type = Directory, n_perm = perm, n_mtime = t, n_size = 0, n_data = [], n_target = []\<rparr>"

definition mk_file :: "nat \<Rightarrow> int \<Rightarrow> string \<Rightarrow> node" where
  "mk_file perm t bytes =
     \<lparr>n_type = Regular, n_perm = perm, n_mtime = t, n_size = int (length bytes),
      n_data = bytes, n_target = []\<rparr>"

definition mk_socket :: "nat \<Rightarrow> int \<Rightarrow> node" where
  "mk_socket perm t =
     \<lparr>n_type = Other, n_perm = perm, n_mtime = t, n_size = 0, n_data = [], n_target = []\<rparr>"

text \<open>
  A source tree \<^verbatim>\<open>/s/a/b/f\<close> whose directories have the modes 0755, 0700 and 0750,
  a socket \<^verbatim>\<open>/s/sock\<close>, and a destination that has \<^verbatim>\<open>/d\<close> and \<^verbatim>\<open>/d/a\<close>
  (mode 0777) only; the umask is 022.
\<close>

definition world0 :: world where
  "world0 =
     \<lparr>ftable = [''/s'' \<mapsto> mk_dir 493 1, ''/s/a'' \<mapsto> mk_dir 448 2,
                ''/s/a/b'' \<mapsto> mk_dir 488 3, ''/s/a/b/f'' \<mapsto> mk_file 420 100 ''X'',
                ''/s/sock'' \<mapsto> mk_socket 493 7,
                ''/d'' \<mapsto> mk_dir 493 5, ''/d/a'' \<mapsto> mk_dir 511 6],
      umask = 18, now = 1000, out = []\<rparr>"


definition mk_link :: "nat \<Rightarrow> int \<Rightarrow> path \<Rightarrow> node" where
  "mk_link perm t target =
     \<lparr>n_type = Symlink, n_perm = perm, n_mtime = t, n_size = int (length target),
      n_data = [], n_target = target\<rparr>"

text \<open>
  A source with a regular file \<^verbatim>\<open>/s/t\<close> and a symbolic link \<^verbatim>\<open>/s/l\<close> to it, and
  an empty destination.
\<close>

definition world2 :: world where
  "world2 =
     \<lparr>ftable = [''/s'' \<mapsto> mk_dir 493 1, ''/s/t'' \<mapsto> mk_file 420 100 ''X'',
                ''/s/l'' \<mapsto> mk_link 511 7 ''/s/t'', ''/d'' \<mapsto> mk_dir 493 5],
      umask = 18, now = 3000, out = []\<rparr>"

text \<open>
  What holds of the scan loop between any two events. The counter of the wait group is
  the number of operations that have not finished; no operation at or beyond the index
  the launching loop has reached has been launched; once \<^verbatim>\<open>wg.Wait()\<close> has
  returned the counter is zero.
\<close>

definition count_busy :: "wstat list \<Rightarrow> nat" where
  "count_busy ws = length (filter (\<lambda>u. u = Busy) ws)"

definition loop_inv :: "Configurations \<Rightarrow> loop_state \<Rightarrow> bool" where
  "loop_inv configs s \<longleftrightarrow>
     length (l_stat s) = length (l_jobs s)
   \<and> l_wg s = int (unfinished (l_stat s))
   \<and> (case l_pc s of
        StartWorkers i \<Rightarrow> set (l_stat s) \<subseteq> {NotLaunched}
      | Launch n \<Rightarrow> set (drop n (l_stat s)) \<subseteq> {NotLaunched}
      | Wait \<Rightarrow> True
      | Signal n \<Rightarrow> l_wg s = 0
      | Sleep \<Rightarrow> l_wg s = 0)"

text \<open>
  What holds of the workers: without a limit there are none; with a limit \<open>k\<close> the
  running operations are as many as the busy workers, at most \<open>k\<close> operations sit
  in the channel, and once the starting loop is left there are \<open>k\<close> workers.
\<close>

definition pool_inv :: "Configurations \<Rightarrow> loop_state \<Rightarrow> bool" where
  "pool_inv configs s \<longleftrightarrow>
     (let k = MaxConcurrentWorkers (General configs) in
      if k < 1 then l_workers s = []
      else count_stat Running (l_stat s) = count_busy (l_workers s)
         \<and> int (count_stat Pending (l_stat s)) \<le> k
         \<and> (case l_pc s of
              StartWorkers i \<Rightarrow> length (l_workers s) = i \<and> int i \<le> k
            | _ \<Rightarrow> int (length (l_workers s)) = k))"

text \<open>Two configurations, without a limit and with one worker.\<close>

definition config0 :: Configurations where
  "config0 = \<lparr>General = \<lparr>SourceDirectory = ''/s'', DestinationDirectory = ''/d'',
                          LoopIntervalMS = 1000, MaxConcurrentWorkers = 0\<rparr>\<rparr>"

definition config1 :: Configurations where
  "config1 = \<lparr>General = \<lparr>SourceDirectory = ''/s'', DestinationDirectory = ''/d'',
                          LoopIntervalMS = 1000, MaxConcurrentWorkers = 1\<rparr>\<rparr>"

section \<open>Properties of the planner\<close>

lemma keys_delete_key: "keys (delete_key k m) = keys m - {k}"
  by (auto simp: keys_def delete_key_def)

lemma distinct_delete_key: "distinct (map fst m) \<Longrightarrow> distinct (map fst (delete_key k m))"
  by (simp add: delete_key_def distinct_map_filter)

lemma delete_loop_eq: "delete_loop configs m jobs = jobs @ map (delete_job configs) m"
  by (induction m arbitrary: jobs) auto

lemma orphans_Cons_shared:
  "k \<in> keys destFiles \<Longrightarrow>
   orphans ((k, f) # rest) destFiles = orphans rest (delete_key k destFiles)"
  by (induction destFiles) (auto simp: orphans_def delete_key_def keys_def)

lemma orphans_Cons_fresh:
  "k \<notin> keys destFiles \<Longrightarrow> orphans ((k, f) # rest) destFiles = orphans rest destFiles"
  unfolding orphans_def keys_def
  by (rule filter_cong) auto

lemma card_shared_Cons_in:
  assumes "k \<notin> keys rest" "k \<in> keys destFiles"
  shows "card (keys ((k, f) # rest) \<inter> keys destFiles)
           = Suc (card (keys rest \<inter> keys (delete_key k destFiles)))"
proof -
  have fin: "finite (keys rest \<inter> keys destFiles)" by (simp add: keys_def)
  have "keys ((k, f) # rest) \<inter> keys destFiles = insert k (keys rest \<inter> keys destFiles)"
    using assms by (auto simp: keys_def)
  moreover have "keys rest \<inter> keys (delete_key k destFiles) = keys rest \<inter> keys destFiles"
    using assms by (auto simp: keys_delete_key)
  moreover have "k \<notin> keys rest \<inter> keys destFiles" using assms by simp
  ultimately show ?thesis using fin by simp
qed

lemma card_shared_Cons_out:
  assumes "k \<notin> keys destFiles"
  shows "card (keys ((k, f) # rest) \<inter> keys destFiles) = card (keys rest \<inter> keys destFiles)"
proof -
  have "keys ((k, f) # rest) \<inter> keys destFiles = keys rest \<inter> keys destFiles"
    using assms by (auto simp: keys_def)
  then show ?thesis by simp
qed

lemma write_loop_result:
  "distinct (map fst srcFiles) \<Longrightarrow>
   int (card (keys srcFiles \<inter> keys destFiles)) \<le> wg \<Longrightarrow>
   write_loop configs srcFiles destFiles wg jobs =
     Inr (orphans srcFiles destFiles,
          wg - int (card (keys srcFiles \<inter> keys destFiles)),
          jobs @ map (write_job configs) srcFiles)"
proof (induction srcFiles arbitrary: destFiles wg jobs)
  case Nil
  have "filter (\<lambda>e. True) destFiles = destFiles" by simp
  then show ?case by (simp add: orphans_def keys_def)
next
  case (Cons e rest)
  obtain k f where e: "e = (k, f)" by (cases e)
  from Cons.prems e have fresh: "k \<notin> keys rest" and d: "distinct (map fst rest)"
    by (auto simp: keys_def)
  show ?case
  proof (cases "k \<in> keys destFiles")
    case True
    note c = card_shared_Cons_in [OF fresh True, of f]
    from Cons.prems(2) c e have pos: "0 \<le> wg - 1"
      and le: "int (card (keys rest \<inter> keys (delete_key k destFiles))) \<le> wg - 1"
      by auto
    from pos have dn: "wg_Done wg = Inr (wg - 1)"
      by (simp add: wg_Done_def wg_Add_def)
    from True have mem: "fst e \<in> set (map fst destFiles)"
      by (simp add: e keys_def)
    show ?thesis
      using Cons.IH [OF d le] mem dn c
      by (simp add: e orphans_Cons_shared [OF True])
  next
    case False
    note c = card_shared_Cons_out [OF False, of f rest]
    from Cons.prems(2) c e
    have le: "int (card (keys rest \<inter> keys destFiles)) \<le> wg" by simp
    from False have mem: "fst e \<notin> set (map fst destFiles)"
      by (simp add: e keys_def)
    show ?thesis
      using Cons.IH [OF d le] mem c
      by (simp add: e orphans_Cons_fresh [OF False])
  qed
qed

lemma card_keys: "distinct (map fst m) \<Longrightarrow> card (keys m) = length m"
  unfolding keys_def by (metis distinct_card length_map set_map)

lemma length_orphans:
  assumes "distinct (map fst destFiles)"
  shows "length (orphans srcFiles destFiles)
           = length destFiles - card (keys srcFiles \<inter> keys destFiles)"
proof -
  have d: "distinct (map fst (orphans srcFiles destFiles))"
    using assms by (simp add: orphans_def distinct_map_filter)
  have k: "keys (orphans srcFiles destFiles) = keys destFiles - keys srcFiles"
    by (auto simp: orphans_def keys_def)
  have "card (keys destFiles - keys srcFiles)
          = card (keys destFiles) - card (keys srcFiles \<inter> keys destFiles)"
    by (simp add: card_Diff_subset_Int keys_def Int_commute)
  with card_keys [OF d] card_keys [OF assms] k show ?thesis by simp
qed

lemma card_shared_le:
  "distinct (map fst destFiles) \<Longrightarrow>
   card (keys srcFiles \<inter> keys destFiles) \<le> length destFiles"
  by (metis card_keys card_mono finite_imageI finite_set inf_le2 keys_def)

lemma plan_cycle_result:
  assumes "distinct (map fst srcFiles)" "distinct (map fst destFiles)"
  shows "plan_cycle configs srcFiles destFiles =
           Inr (map (write_job configs) srcFiles
                  @ map (delete_job configs) (orphans srcFiles destFiles),
                int (length srcFiles) + int (length destFiles)
                  - int (card (keys srcFiles \<inter> keys destFiles)))"
proof -
  let ?n = "int (length srcFiles) + int (length destFiles)"
  have add: "wg_Add 0 ?n = Inr ?n" by (simp add: wg_Add_def)
  have "int (card (keys srcFiles \<inter> keys destFiles)) \<le> ?n"
    using card_shared_le [OF assms(2), of srcFiles] by linarith
  from write_loop_result [OF assms(1) this, of configs "[]"] add
  show ?thesis
    by (simp add: plan_cycle_def processChanges_def delete_loop_eq)
qed

lemma filter_writes:
  "filter is_Write (map (write_job configs) xs @ map (delete_job configs) ys)
     = map (write_job configs) xs"
  by (simp add: filter_map o_def write_job_def delete_job_def)

lemma filter_deletes:
  "filter is_Delete (map (write_job configs) xs @ map (delete_job configs) ys)
     = map (delete_job configs) ys"
  by (simp add: filter_map o_def write_job_def delete_job_def)

lemma keys_orphans: "keys (orphans srcFiles destFiles) = keys destFiles - keys srcFiles"
  by (auto simp: orphans_def keys_def)



text \<open>
  C3. For all snapshots, the planner emits exactly the Write operations of the source
  entries, one for each relative path of the source snapshot whatever the state of the
  destination, followed by exactly the Delete operations of the destination entries
  whose relative path is not in the source snapshot, one for each; the relative paths
  written and the relative paths deleted are disjoint.
\<close>

theorem C3_one_write_one_delete:
  assumes "distinct (map fst srcFiles)" and "distinct (map fst destFiles)"
  shows "\<exists>jobs wg.
           plan_cycle configs srcFiles destFiles = Inr (jobs, wg)
         \<and> filter is_Write jobs = map (write_job configs) srcFiles
         \<and> filter is_Delete jobs = map (delete_job configs) (orphans srcFiles destFiles)
         \<and> jobs = filter is_Write jobs @ filter is_Delete jobs
         \<and> distinct (map fst (orphans srcFiles destFiles))
         \<and> keys (orphans srcFiles destFiles) = keys destFiles - keys srcFiles
         \<and> keys srcFiles \<inter> keys (orphans srcFiles destFiles) = {}"
proof -
  let ?jobs = "map (write_job configs) srcFiles
                 @ map (delete_job configs) (orphans srcFiles destFiles)"
  from plan_cycle_result [OF assms, of configs]
  obtain wg where plan: "plan_cycle configs srcFiles destFiles = Inr (?jobs, wg)"
    by blast
  have od: "distinct (map fst (orphans srcFiles destFiles))"
    using assms(2) by (simp add: orphans_def distinct_map_filter)
  have dj: "keys srcFiles \<inter> keys (orphans srcFiles destFiles) = {}"
    by (auto simp: keys_orphans)
  have "?jobs = filter is_Write ?jobs @ filter is_Delete ?jobs"
    by (simp only: filter_writes filter_deletes)
  with plan od dj show ?thesis
    using filter_writes [of configs srcFiles "orphans srcFiles destFiles"]
          filter_deletes [of configs srcFiles "orphans srcFiles destFiles"]
          keys_orphans [of srcFiles destFiles]
    by metis
qed

theorem C3_one_write_one_delete_witness:
  "distinct (map fst [(''/a'', None), (''/b'', None :: fileinfo option)])
   \<and> distinct (map fst [(''/b'', None), (''/c'', None :: fileinfo option)])
   \<and> (\<exists>wg. plan_cycle
         \<lparr>General = \<lparr>SourceDirectory = ''/s'', DestinationDirectory = ''/d'',
                      LoopIntervalMS = 1000, MaxConcurrentWorkers = 0\<rparr>\<rparr>
         [(''/a'', None), (''/b'', None)] [(''/b'', None), (''/c'', None)]
       = Inr ([WriteJob ''/s/a'' None ''/d/a'', WriteJob ''/s/b'' None ''/d/b'',
               DeleteJob None ''/d/c''], wg))"
proof -
  have d1: "distinct (map fst [(''/a'', None), (''/b'', None :: fileinfo option)])"
    by simp
  have d2: "distinct (map fst [(''/b'', None), (''/c'', None :: fileinfo option)])"
    by simp
  have o: "orphans [(''/a'', None), (''/b'', None :: fileinfo option)]
             [(''/b'', None), (''/c'', None)] = [(''/c'', None)]"
    by (simp add: orphans_def keys_def)
  have j1: "Join ''/s'' ''/a'' = ''/s/a''" "Join ''/s'' ''/b'' = ''/s/b''"
    "Join ''/d'' ''/c'' = ''/d/c''"
    by (simp_all add: Join_def Clean_def clean_step_def)
  let ?cfg = "\<lparr>General = \<lparr>SourceDirectory = ''/s'', DestinationDirectory = ''/d'',
                      LoopIntervalMS = 1000, MaxConcurrentWorkers = 0\<rparr>\<rparr>"
  from C3_one_write_one_delete [OF d1 d2, of ?cfg]
  obtain jobs wg where
    p: "plan_cycle ?cfg [(''/a'', None), (''/b'', None)] [(''/b'', None), (''/c'', None)]
          = Inr (jobs, wg)"
    and w: "filter is_Write jobs
              = map (write_job ?cfg) [(''/a'', None), (''/b'', None)]"
    and d: "filter is_Delete jobs
              = map (delete_job ?cfg)
                  (orphans [(''/a'', None), (''/b'', None)] [(''/b'', None), (''/c'', None)])"
    and j: "jobs = filter is_Write jobs @ filter is_Delete jobs"
    by blast
  have "jobs = [WriteJob ''/s/a'' None ''/d/a'', WriteJob ''/s/b'' None ''/d/b'',
                DeleteJob None ''/d/c'']"
    by (subst j, simp only: w d o) (simp add: write_job_def delete_job_def j1)
  with p d1 d2 show ?thesis by blast
qed

section \<open>Properties of the tree scanner\<close>

lemma getDirFiles_fn_nil: "fst (getDirFiles_fn srcDir files p info err) = None"
  by (simp add: getDirFiles_fn_def)

lemma walk_getDirFiles_fn_nil:
  "fst (walk (getDirFiles_fn srcDir) p t s) = None"
  "fst (walk_names (getDirFiles_fn srcDir) p names s) = None"
proof (induction "getDirFiles_fn srcDir" p t s and "getDirFiles_fn srcDir" p names s
       rule: walk_walk_names.induct)
  case (1 p info rderr names s)
  then show ?case
    by (auto simp: getDirFiles_fn_def split: prod.splits)
next
  case (2 p s)
  then show ?case by simp
next
  case (3 p name err rest s)
  then show ?case
    by (auto simp: getDirFiles_fn_def split: prod.splits if_splits)
next
  case (4 p name t rest s)
  then show ?case
    by (auto split: prod.splits)
qed

lemma Walk_getDirFiles_fn_nil:
  "fst (Walk srcDir tree (getDirFiles_fn srcDir) s) = None"
proof (cases tree)
  case (Inl err)
  then show ?thesis
    by (simp add: Walk_def getDirFiles_fn_def)
next
  case (Inr t)
  obtain e s' where w: "walk (getDirFiles_fn srcDir) srcDir t s = (e, s')"
    by (cases "walk (getDirFiles_fn srcDir) srcDir t s")
  with walk_getDirFiles_fn_nil(1) [of srcDir srcDir t s] have "e = None" by simp
  with Inr w show ?thesis by (simp add: Walk_def)
qed

lemma replace_at_first_prefix:
  "old \<noteq> [] \<Longrightarrow> replace_at_first (old @ rest) old [] = rest"
  by (cases old) simp_all

text \<open>
  Where the root is a prefix of the visited path, the stored key is the path without
  that prefix.
\<close>

lemma strings_Replace1_prefix:
  "strings_Replace1 (root @ rest) root [] = rest"
  by (cases "root = []") (simp_all add: strings_Replace1_def replace_at_first_prefix)

text \<open>
  C6. The scanner is meant to stop the process when the root cannot be read or the walk
  meets an error. The function literal given to the walk returns nil whatever error it
  is handed, so the walk never returns an error and the \<^verbatim>\<open>panic\<close> that follows it
  is never reached: a root whose \<^verbatim>\<open>Lstat\<close> fails yields the empty snapshot, and
  every tree, broken or not, yields a snapshot.
\<close>

theorem C6_scan_never_fails:
  "getDirFiles srcDir (Inl err) = Inr Map.empty
   \<and> (\<exists>files. getDirFiles srcDir tree = Inr files)"
proof
  show "getDirFiles srcDir (Inl err) = Inr Map.empty"
    by (simp add: getDirFiles_def Walk_def getDirFiles_fn_def)
next
  obtain e files where w: "Walk srcDir tree (getDirFiles_fn srcDir) Map.empty = (e, files)"
    by (cases "Walk srcDir tree (getDirFiles_fn srcDir) Map.empty")
  with Walk_getDirFiles_fn_nil [of srcDir tree Map.empty] have "e = None" by simp
  with w show "\<exists>files. getDirFiles srcDir tree = Inr files"
    by (simp add: getDirFiles_def)
qed

text \<open>
  A directory that cannot be listed and an entry whose \<^verbatim>\<open>Lstat\<close> fails: the
  scanner returns what it has seen, with nil stored for the failed entry and nothing
  for what lies below the unreadable directory.
\<close>

lemma getDirFiles_partial_snapshot:
  "getDirFiles ''/s''
     (Inr (Node \<lparr>fi_type = Directory, fi_perm = 493, fi_modTime = 1, fi_size = 0\<rparr> None
        (Child ''a''
           (Node \<lparr>fi_type = Directory, fi_perm = 0, fi_modTime = 2, fi_size = 0\<rparr>
              (Some EACCES)
              (Child ''x''
                 (Node \<lparr>fi_type = Regular, fi_perm = 420, fi_modTime = 3, fi_size = 5\<rparr>
                    None NoMore)
                 NoMore))
           (Broken ''b'' ENOENT NoMore))))
   = Inr [''/a'' \<mapsto> Some \<lparr>fi_type = Directory, fi_perm = 0, fi_modTime = 2, fi_size = 0\<rparr>,
          ''/b'' \<mapsto> None]"
  by (simp add: getDirFiles_def Walk_def getDirFiles_fn_def IsDir_def
        Join_def Clean_def clean_step_def strings_Replace1_def)

text \<open>
  C7. The stored key is meant to be the visited path relative to the root. The code
  removes the first occurrence of the root string, which need not be a prefix: with the
  root \<^verbatim>\<open>.\<close> the walk visits the file \<^verbatim>\<open>a.txt\<close> of the root under the path
  \<^verbatim>\<open>a.txt\<close>, and the key stored for it is \<^verbatim>\<open>atxt\<close>.
\<close>

theorem C7_key_of_dot_root:
  "getDirFiles ''.''
     (Inr (Node \<lparr>fi_type = Directory, fi_perm = 493, fi_modTime = 1, fi_size = 0\<rparr> None
        (Child ''a.txt''
           (Node \<lparr>fi_type = Regular, fi_perm = 420, fi_modTime = 3, fi_size = 5\<rparr>
              None NoMore)
           NoMore)))
   = Inr [''atxt'' \<mapsto> Some \<lparr>fi_type = Regular, fi_perm = 420, fi_modTime = 3, fi_size = 5\<rparr>]"
  by (simp add: getDirFiles_def Walk_def getDirFiles_fn_def IsDir_def
        Join_def Clean_def clean_step_def strings_Replace1_def)

section \<open>Properties of the file system operations\<close>

lemma resolve_absent: "fs p = None \<Longrightarrow> resolve fs p = Inr p"
  by (simp add: resolve_def eval_nat_numeral)

lemma resolve_plain: "fs p = Some n \<Longrightarrow> n_type n \<noteq> Symlink \<Longrightarrow> resolve fs p = Inr p"
  by (simp add: resolve_def eval_nat_numeral)

lemma os_Stat_absent: "ftable w p = None \<Longrightarrow> os_Stat w p = Inl ENOENT"
  by (simp add: os_Stat_def resolve_absent)

lemma os_Stat_plain:
  "ftable w p = Some n \<Longrightarrow> n_type n \<noteq> Symlink \<Longrightarrow> os_Stat w p = Inr (info_of n)"
  by (simp add: os_Stat_def resolve_plain)


lemma os_Chmod_plain:
  "ftable w p = Some n \<Longrightarrow> n_type n \<noteq> Symlink \<Longrightarrow>
   os_Chmod w p m = Inr (w\<lparr>ftable := (ftable w)(p \<mapsto> n\<lparr>n_perm := m\<rparr>)\<rparr>)"
  by (simp add: os_Chmod_def resolve_plain)

lemma os_Chtimes_plain:
  "ftable w p = Some n \<Longrightarrow> n_type n \<noteq> Symlink \<Longrightarrow>
   os_Chtimes w p t = Inr (w\<lparr>ftable := (ftable w)(p \<mapsto> n\<lparr>n_mtime := t\<rparr>)\<rparr>)"
  by (simp add: os_Chtimes_def resolve_plain)

lemma os_Open_plain:
  "ftable w p = Some n \<Longrightarrow> n_type n \<noteq> Symlink \<Longrightarrow> os_Open w p = Inr p"
  by (simp add: os_Open_def resolve_plain)


lemma os_Create_absent:
  "ftable w p = None \<Longrightarrow> ftable w (Dir p) = Some d \<Longrightarrow> n_type d = Directory \<Longrightarrow>
   os_Create w p = Inr (w\<lparr>ftable := (ftable w)(p \<mapsto> new_file w 438)\<rparr>, p)"
  by (simp add: os_Create_def resolve_absent os_Stat_plain IsDir_def info_of_def)


lemma os_Mkdir_result:
  "os_Mkdir w p perm = Inr w' \<Longrightarrow>
   ftable w p = None \<and> w' = w\<lparr>ftable := (ftable w)(p \<mapsto> new_dir w perm)\<rparr>"
  by (auto simp: os_Mkdir_def split: if_splits sum.splits)

lemma only_adds_dirs_refl: "only_adds_dirs w perm w"
  by (simp add: only_adds_dirs_def)

lemma only_adds_dirs_Mkdir:
  assumes "only_adds_dirs w perm w1" and "os_Mkdir w1 p perm = Inr w2"
  shows "only_adds_dirs w perm w2"
proof -
  from os_Mkdir_result [OF assms(2)]
  have free: "ftable w1 p = None"
    and w2: "w2 = w1\<lparr>ftable := (ftable w1)(p \<mapsto> new_dir w1 perm)\<rparr>"
    by simp_all
  from assms(1) have same: "umask w1 = umask w" "now w1 = now w" "out w1 = out w"
    and frame: "\<And>q. ftable w1 q = ftable w q
                   \<or> (ftable w q = None \<and> ftable w1 q = Some (new_dir w perm))"
    by (simp_all add: only_adds_dirs_def)
  have nd: "new_dir w1 perm = new_dir w perm"
    by (simp add: new_dir_def masked_def same)
  from frame [of p] free have "ftable w p = None" by auto
  with frame show ?thesis
    unfolding only_adds_dirs_def w2 by (auto simp: same nd)
qed

lemma os_MkdirAll_only_adds_dirs:
  "os_MkdirAll w p perm = Inr w' \<Longrightarrow> only_adds_dirs w perm w'"
proof (induction w p perm arbitrary: w' rule: os_MkdirAll.induct)
  case (1 w p perm)
  show ?case
  proof (cases "os_Stat w p")
    case (Inr dir)
    with "1.prems" have "w' = w"
      by (simp add: os_MkdirAll.simps [of w p perm] split: if_splits)
    then show ?thesis by (simp add: only_adds_dirs_refl)
  next
    case (Inl err)
    obtain w1 where
      par: "(case mkdirall_parent p of None \<Rightarrow> Inr w
             | Some parent \<Rightarrow> os_MkdirAll w parent perm) = Inr w1"
      and rest: "(case os_Mkdir w1 p perm of
                    Inr w'' \<Rightarrow> Inr w''
                  | Inl e \<Rightarrow>
                      (case os_Lstat w1 p of
                         Inr dir \<Rightarrow> (if IsDir dir then Inr w1 else Inl e)
                       | Inl err1 \<Rightarrow> Inl e)) = Inr w'"
      using "1.prems" Inl
      by (simp add: os_MkdirAll.simps [of w p perm] split: sum.splits)
    have f1: "only_adds_dirs w perm w1"
    proof (cases "mkdirall_parent p")
      case None
      with par show ?thesis by (simp add: only_adds_dirs_refl)
    next
      case (Some parent)
      with par have "os_MkdirAll w parent perm = Inr w1" by simp
      with "1.IH" [OF Inl Some] show ?thesis .
    qed
    show ?thesis
    proof (cases "os_Mkdir w1 p perm")
      case (Inr w2)
      with rest have "w' = w2" by simp
      with only_adds_dirs_Mkdir [OF f1 Inr] show ?thesis by simp
    next
      case (Inl e)
      with rest have "w' = w1"
        by (simp split: sum.splits if_splits)
      with f1 show ?thesis by simp
    qed
  qed
qed

section \<open>The directory step\<close>

lemma validateDirExistance_file:
  "os_Stat w s = Inr si \<Longrightarrow> \<not> IsDir si \<Longrightarrow>
   validateDirExistance w s d = validateDirExistance w (Dir s) (Dir d)"
  by (subst validateDirExistance.simps) simp

lemma validateDirExistance_dir_exists:
  "os_Stat w s = Inr sd \<Longrightarrow> IsDir sd \<Longrightarrow> ftable w d = Some dd \<Longrightarrow>
   n_type dd \<noteq> Symlink \<Longrightarrow>
   validateDirExistance w s d
     = Some (Inr (w\<lparr>ftable := (ftable w)(d \<mapsto> dd\<lparr>n_perm := fi_perm sd\<rparr>)\<rparr>))"
  by (subst validateDirExistance.simps) (simp add: os_Stat_plain os_Chmod_plain)

lemma validateDirExistance_dir_absent:
  "os_Stat w s = Inr sd \<Longrightarrow> IsDir sd \<Longrightarrow> ftable w d = None \<Longrightarrow>
   validateDirExistance w s d
     = Some (case os_MkdirAll w d (fi_perm sd) of
               Inl e \<Rightarrow> Inl (PanicErr e)
             | Inr w1 \<Rightarrow> Inr (printf w1 LogWrite d))"
  by (subst validateDirExistance.simps) (simp add: os_Stat_absent split: sum.splits)

lemma validateDirExistance_at_dir:
  assumes "os_Stat w s = Inr sd" and "IsDir sd"
    and "\<forall>dd. ftable w d = Some dd \<longrightarrow> n_type dd \<noteq> Symlink"
  shows "validateDirExistance w s d =
           Some (case ftable w d of
                   Some dd \<Rightarrow> Inr (w\<lparr>ftable := (ftable w)(d \<mapsto> dd\<lparr>n_perm := fi_perm sd\<rparr>)\<rparr>)
                 | None \<Rightarrow>
                     (case os_MkdirAll w d (fi_perm sd) of
                        Inl e \<Rightarrow> Inl (PanicErr e)
                      | Inr w1 \<Rightarrow> Inr (printf w1 LogWrite d)))"
proof (cases "ftable w d")
  case None
  with validateDirExistance_dir_absent [OF assms(1,2) None] show ?thesis by simp
next
  case (Some dd)
  with assms(3) have "n_type dd \<noteq> Symlink" by simp
  from validateDirExistance_dir_exists [OF assms(1,2) Some this] Some
  show ?thesis by simp
qed

section \<open>The example worlds\<close>

lemma Dir_examples:
  "Dir ''/s/a/b/f'' = ''/s/a/b''" "Dir ''/d/a/b/f'' = ''/d/a/b''" "Dir ''/d/a/b'' = ''/d/a''"
  "Dir ''/s/sock'' = ''/s''" "Dir ''/d/sock'' = ''/d''"
  by (simp_all add: Dir_def Clean_def clean_step_def)

lemma info_examples:
  "\<not> IsDir (info_of (mk_file perm t bytes))" "IsRegular (info_of (mk_file perm t bytes))"
  "IsDir (info_of (mk_dir perm t))"
  "\<not> IsDir (info_of (mk_socket perm t))" "\<not> IsRegular (info_of (mk_socket perm t))"
  "fi_perm (info_of (mk_dir perm t)) = perm"
  by (simp_all add: IsDir_def IsRegular_def info_of_def mk_file_def mk_dir_def mk_socket_def)

lemma world0_Stat:
  "os_Stat world0 ''/s/a/b/f'' = Inr (info_of (mk_file 420 100 ''X''))"
  "os_Stat world0 ''/s/a/b'' = Inr (info_of (mk_dir 488 3))"
  "os_Stat world0 ''/s/a'' = Inr (info_of (mk_dir 448 2))"
  "os_Stat world0 ''/s/sock'' = Inr (info_of (mk_socket 493 7))"
  "os_Stat world0 ''/s'' = Inr (info_of (mk_dir 493 1))"
  "os_Stat world0 ''/d/a'' = Inr (info_of (mk_dir 511 6))"
  "os_Stat world0 ''/d/a/b'' = Inl ENOENT"
  by (simp_all add: os_Stat_def resolve_def eval_nat_numeral world0_def
        mk_file_def mk_dir_def mk_socket_def)

lemma world0_MkdirAll:
  "os_MkdirAll world0 ''/d/a/b'' 488
     = Inr (world0\<lparr>ftable := (ftable world0)(''/d/a/b'' \<mapsto> mk_dir 488 1000)\<rparr>)"
proof -
  have p: "mkdirall_parent ''/d/a/b'' = Some ''/d/a''"
    by (simp add: mkdirall_parent_def)
  have up: "os_MkdirAll world0 ''/d/a'' 488 = Inr world0"
    by (subst os_MkdirAll.simps) (simp add: world0_Stat info_examples)
  have mk: "os_Mkdir world0 ''/d/a/b'' 488
     = Inr (world0\<lparr>ftable := (ftable world0)(''/d/a/b'' \<mapsto> mk_dir 488 1000)\<rparr>)"
    by (simp add: os_Mkdir_def Dir_examples world0_Stat info_examples)
       (simp add: world0_def mk_dir_def new_dir_def masked_def)
  show ?thesis
    by (subst os_MkdirAll.simps) (simp add: world0_Stat p up mk)
qed

text \<open>The directory step of the Write of \<^verbatim>\<open>/s/a/b/f\<close> in the first world.\<close>

lemma world0_validate_f:
  "validateDirExistance world0 ''/s/a/b/f'' ''/d/a/b/f''
     = Some (Inr (world0\<lparr>ftable := (ftable world0)(''/d/a/b'' \<mapsto> mk_dir 488 1000),
                         out := [LogWrite 1000 ''/d/a/b'']\<rparr>))"
proof -
  have ab: "ftable world0 ''/d/a/b'' = None" by (simp add: world0_def)
  have "validateDirExistance world0 ''/s/a/b/f'' ''/d/a/b/f''
          = validateDirExistance world0 ''/s/a/b'' ''/d/a/b''"
    using validateDirExistance_file [OF world0_Stat(1) info_examples(1), of "''/d/a/b/f''"]
    by (simp add: Dir_examples)
  also have "\<dots> = Some (Inr (printf
                (world0\<lparr>ftable := (ftable world0)(''/d/a/b'' \<mapsto> mk_dir 488 1000)\<rparr>)
                LogWrite ''/d/a/b''))"
    using validateDirExistance_dir_absent [OF world0_Stat(2) info_examples(3) ab]
    by (simp add: info_examples world0_MkdirAll)
  finally show ?thesis
    by (simp add: printf_def) (simp add: world0_def)
qed





lemma world2_Stat:
  "os_Stat world2 ''/s/l'' = Inr (info_of (mk_file 420 100 ''X''))"
  "os_Stat world2 ''/s'' = Inr (info_of (mk_dir 493 1))"
  "os_Open world2 ''/s/l'' = Inr ''/s/t''"
  by (simp_all add: os_Stat_def os_Open_def resolve_def eval_nat_numeral world2_def
        mk_file_def mk_dir_def mk_link_def)

lemma world2_validate_link:
  "validateDirExistance world2 ''/s/l'' ''/d/l'' = Some (Inr world2)"
proof -
  have dirs: "Dir ''/s/l'' = ''/s''" "Dir ''/d/l'' = ''/d''"
    by (simp_all add: Dir_def Clean_def clean_step_def)
  have d: "ftable world2 ''/d'' = Some (mk_dir 493 5)" by (simp add: world2_def)
  have t: "n_type (mk_dir 493 5) \<noteq> Symlink" by (simp add: mk_dir_def)
  have "validateDirExistance world2 ''/s/l'' ''/d/l''
          = validateDirExistance world2 ''/s'' ''/d''"
    using validateDirExistance_file [OF world2_Stat(1) info_examples(1), of "''/d/l''"]
    by (simp add: dirs)
  also have "\<dots> = Some (Inr (world2\<lparr>ftable := (ftable world2)
                 (''/d'' \<mapsto> (mk_dir 493 5)\<lparr>n_perm := fi_perm (info_of (mk_dir 493 1))\<rparr>)\<rparr>))"
    by (rule validateDirExistance_dir_exists [OF world2_Stat(2) info_examples(3) d t])
  also have "world2\<lparr>ftable := (ftable world2)
                 (''/d'' \<mapsto> (mk_dir 493 5)\<lparr>n_perm := fi_perm (info_of (mk_dir 493 1))\<rparr>)\<rparr>
             = world2"
    by (simp add: info_examples) (simp add: world2_def mk_dir_def fun_eq_iff)
  finally show ?thesis .
qed

section \<open>Properties of the file operations\<close>

text \<open>
  C9. In every copy that is carried out (the source is a regular file, it opens, and
  the destination is created), the number of bytes written is compared with the size
  that \<^verbatim>\<open>Stat\<close> reported for the source: when they differ the copy panics, and
  so does the Write that called it; when they agree the copy returns with those
  bytes in the destination.
\<close>

theorem C9_copy_validates_size:
  assumes st: "os_Stat w src = Inr sourceFileStat"
    and reg: "IsRegular sourceFileStat"
    and op: "os_Open w src = Inr source"
    and cr: "os_Create w dst = Inr (w', destination)"
    and sn: "ftable w' source = Some sn"
    and dn: "ftable w' destination = Some dn"
  shows "copyFile w src dst =
           (if int (length (n_data sn)) \<noteq> fi_size sourceFileStat
            then Inl (SizeMismatch (int (length (n_data sn))) (fi_size sourceFileStat))
            else Inr (w'\<lparr>ftable := (ftable w')
                         (destination \<mapsto>
                            dn\<lparr>n_mtime := now w', n_size := int (length (n_data sn)),
                               n_data := n_data sn\<rparr>)\<rparr>))
       \<and> (int (length (n_data sn)) \<noteq> fi_size sourceFileStat \<longrightarrow>
            write_copy w src srcFile dst
              = Inl (SizeMismatch (int (length (n_data sn))) (fi_size sourceFileStat)))"
proof -
  let ?written = "int (length (n_data sn))"
  let ?w'' = "w'\<lparr>ftable := (ftable w')
                 (destination \<mapsto> dn\<lparr>n_mtime := now w', n_size := ?written,
                                    n_data := n_data sn\<rparr>)\<rparr>"
  have cp: "io_Copy w' destination source = Inr (?written, ?w'')"
    by (simp add: io_Copy_def sn dn Let_def)
  have c: "copyFile w src dst =
             (if ?written \<noteq> fi_size sourceFileStat
              then Inl (SizeMismatch ?written (fi_size sourceFileStat))
              else Inr ?w'')"
    by (simp add: copyFile_def st reg op cr cp)
  have "?written \<noteq> fi_size sourceFileStat \<longrightarrow>
          write_copy w src srcFile dst = Inl (SizeMismatch ?written (fi_size sourceFileStat))"
    by (simp add: write_copy_def c)
  with c show ?thesis by blast
qed

theorem C9_copy_validates_size_witness:
  "copyFile
     \<lparr>ftable = [''/s'' \<mapsto> \<lparr>n_type = Directory, n_perm = 493, n_mtime = 1, n_size = 0,
                            n_data = [], n_target = []\<rparr>,
                ''/s/f'' \<mapsto> \<lparr>n_type = Regular, n_perm = 420, n_mtime = 2, n_size = 0,
                              n_data = ''X'', n_target = []\<rparr>,
                ''/d'' \<mapsto> \<lparr>n_type = Directory, n_perm = 493, n_mtime = 3, n_size = 0,
                            n_data = [], n_target = []\<rparr>],
      umask = 18, now = 1000, out = []\<rparr>
     ''/s/f'' ''/d/f''
   = Inl (SizeMismatch 1 0)"
proof -
  let ?sd = "\<lparr>n_type = Directory, n_perm = 493, n_mtime = 1, n_size = 0,
              n_data = [], n_target = []\<rparr>"
  let ?sf = "\<lparr>n_type = Regular, n_perm = 420, n_mtime = 2, n_size = 0,
              n_data = ''X'', n_target = []\<rparr>"
  let ?dd = "\<lparr>n_type = Directory, n_perm = 493, n_mtime = 3, n_size = 0,
              n_data = [], n_target = []\<rparr>"
  let ?w = "\<lparr>ftable = [''/s'' \<mapsto> ?sd, ''/s/f'' \<mapsto> ?sf, ''/d'' \<mapsto> ?dd],
             umask = 18, now = 1000, out = []\<rparr>"
  let ?nf = "new_file ?w 438"
  let ?w' = "?w\<lparr>ftable := (ftable ?w)(''/d/f'' \<mapsto> ?nf)\<rparr>"
  have dir: "Dir ''/d/f'' = ''/d''"
    by (simp add: Dir_def Clean_def clean_step_def)
  have st: "os_Stat ?w ''/s/f'' = Inr (info_of ?sf)"
    by (rule os_Stat_plain) simp_all
  have reg: "IsRegular (info_of ?sf)"
    by (simp add: IsRegular_def info_of_def)
  have op: "os_Open ?w ''/s/f'' = Inr ''/s/f''"
    by (rule os_Open_plain [where n = ?sf]) simp_all
  have cr: "os_Create ?w ''/d/f'' = Inr (?w', ''/d/f'')"
    by (rule os_Create_absent [where d = ?dd]) (simp_all add: dir)
  have s: "ftable ?w' ''/s/f'' = Some ?sf" by simp
  have d: "ftable ?w' ''/d/f'' = Some ?nf" by simp
  from C9_copy_validates_size [OF st reg op cr s d]
  have "copyFile ?w ''/s/f'' ''/d/f''
          = (if int (length (n_data ?sf)) \<noteq> fi_size (info_of ?sf)
             then Inl (SizeMismatch (int (length (n_data ?sf))) (fi_size (info_of ?sf)))
             else Inr (?w'\<lparr>ftable := (ftable ?w')
                         (''/d/f'' \<mapsto>
                            ?nf\<lparr>n_mtime := now ?w', n_size := int (length (n_data ?sf)),
                               n_data := n_data ?sf\<rparr>)\<rparr>))"
    by (rule conjunct1)
  then show ?thesis by (simp add: info_of_def)
qed




text \<open>
  C5, as the code has it. The directory step of a Write goes up from the source path to
  the first path that is a directory, the path itself or its parent, and treats the
  destination path of that one level only. When that destination exists, its
  permission bits are set to those of the source directory and nothing else in the
  world changes: no entry is removed or made. When it does not exist,
  \<^verbatim>\<open>os.MkdirAll\<close> makes it and its missing ancestors, all with the permission bits
  of that one source directory less the umask, a line is printed, and every entry
  that existed stays as it was. The permission bits of the ancestors in the source
  are never read.
\<close>

theorem C5_directory_step:
  assumes st: "os_Stat w srcPath = Inr si"
    and near: "if IsDir si then s = srcPath \<and> d = destPath \<and> sd = si
               else s = Dir srcPath \<and> d = Dir destPath
                    \<and> os_Stat w s = Inr sd \<and> IsDir sd"
    and plain: "\<forall>dd. ftable w d = Some dd \<longrightarrow> n_type dd \<noteq> Symlink"
  shows "validateDirExistance w srcPath destPath =
           Some (case ftable w d of
                   Some dd \<Rightarrow> Inr (w\<lparr>ftable := (ftable w)(d \<mapsto> dd\<lparr>n_perm := fi_perm sd\<rparr>)\<rparr>)
                 | None \<Rightarrow>
                     (case os_MkdirAll w d (fi_perm sd) of
                        Inl e \<Rightarrow> Inl (PanicErr e)
                      | Inr w1 \<Rightarrow> Inr (printf w1 LogWrite d)))
         \<and> (\<forall>w1. os_MkdirAll w d (fi_perm sd) = Inr w1
                \<longrightarrow> only_adds_dirs w (fi_perm sd) w1)"
proof
  show "\<forall>w1. os_MkdirAll w d (fi_perm sd) = Inr w1 \<longrightarrow> only_adds_dirs w (fi_perm sd) w1"
    by (simp add: os_MkdirAll_only_adds_dirs)
next
  show "validateDirExistance w srcPath destPath =
           Some (case ftable w d of
                   Some dd \<Rightarrow> Inr (w\<lparr>ftable := (ftable w)(d \<mapsto> dd\<lparr>n_perm := fi_perm sd\<rparr>)\<rparr>)
                 | None \<Rightarrow>
                     (case os_MkdirAll w d (fi_perm sd) of
                        Inl e \<Rightarrow> Inl (PanicErr e)
                      | Inr w1 \<Rightarrow> Inr (printf w1 LogWrite d)))"
  proof (cases "IsDir si")
    case True
    with near have e: "s = srcPath" "d = destPath" "sd = si" by simp_all
    from plain have "\<forall>dd. ftable w destPath = Some dd \<longrightarrow> n_type dd \<noteq> Symlink"
      unfolding e .
    from validateDirExistance_at_dir [OF st True this]
    show ?thesis unfolding e .
  next
    case False
    with near have e: "s = Dir srcPath" "d = Dir destPath"
      and sd: "os_Stat w s = Inr sd" "IsDir sd" by auto
    have "validateDirExistance w srcPath destPath = validateDirExistance w s d"
      unfolding e by (rule validateDirExistance_file [OF st False])
    with validateDirExistance_at_dir [OF sd plain] show ?thesis by simp
  qed
qed

theorem C5_directory_step_witness:
  "validateDirExistance world0 ''/s/a'' ''/d/a''
     = Some (Inr (world0\<lparr>ftable := (ftable world0)(''/d/a'' \<mapsto> mk_dir 448 6)\<rparr>))
   \<and> validateDirExistance world0 ''/s/a/b/f'' ''/d/a/b/f''
     = Some (Inr (printf (world0\<lparr>ftable := (ftable world0)(''/d/a/b'' \<mapsto> mk_dir 488 1000)\<rparr>)
                    LogWrite ''/d/a/b''))
   \<and> only_adds_dirs world0 488
        (world0\<lparr>ftable := (ftable world0)(''/d/a/b'' \<mapsto> mk_dir 488 1000)\<rparr>)"
proof -
  let ?si = "info_of (mk_dir 448 2)"
  have near: "if IsDir ?si then ''/s/a'' = ''/s/a'' \<and> ''/d/a'' = ''/d/a'' \<and> ?si = ?si
              else ''/s/a'' = Dir ''/s/a'' \<and> ''/d/a'' = Dir ''/d/a''
                   \<and> os_Stat world0 ''/s/a'' = Inr ?si \<and> IsDir ?si"
    by (simp add: info_examples)
  have plain: "\<forall>dd. ftable world0 ''/d/a'' = Some dd \<longrightarrow> n_type dd \<noteq> Symlink"
    by (simp add: world0_def mk_dir_def)
  have da: "ftable world0 ''/d/a'' = Some (mk_dir 511 6)" by (simp add: world0_def)
  have upd: "(mk_dir 511 6)\<lparr>n_perm := fi_perm ?si\<rparr> = mk_dir 448 6"
    by (simp add: info_examples) (simp add: mk_dir_def)
  from C5_directory_step [OF world0_Stat(3) near plain]
  have "validateDirExistance world0 ''/s/a'' ''/d/a''
     = Some (case ftable world0 ''/d/a'' of
               Some dd \<Rightarrow> Inr (world0\<lparr>ftable := (ftable world0)
                                   (''/d/a'' \<mapsto> dd\<lparr>n_perm := fi_perm ?si\<rparr>)\<rparr>)
             | None \<Rightarrow>
                 (case os_MkdirAll world0 ''/d/a'' (fi_perm ?si) of
                    Inl e \<Rightarrow> Inl (PanicErr e)
                  | Inr w1 \<Rightarrow> Inr (printf w1 LogWrite ''/d/a'')))"
    by (rule conjunct1)
  then have a: "validateDirExistance world0 ''/s/a'' ''/d/a''
     = Some (Inr (world0\<lparr>ftable := (ftable world0)(''/d/a'' \<mapsto> mk_dir 448 6)\<rparr>))"
    by (simp only: da option.case upd)
  let ?fi = "info_of (mk_file 420 100 ''X'')"
  let ?sd = "info_of (mk_dir 488 3)"
  have near2: "if IsDir ?fi then ''/s/a/b'' = ''/s/a/b/f'' \<and> ''/d/a/b'' = ''/d/a/b/f'' \<and> ?sd = ?fi
              else ''/s/a/b'' = Dir ''/s/a/b/f'' \<and> ''/d/a/b'' = Dir ''/d/a/b/f''
                   \<and> os_Stat world0 ''/s/a/b'' = Inr ?sd \<and> IsDir ?sd"
    by (simp add: info_examples Dir_examples world0_Stat)
  have plain2: "\<forall>dd. ftable world0 ''/d/a/b'' = Some dd \<longrightarrow> n_type dd \<noteq> Symlink"
    by (simp add: world0_def)
  have none: "ftable world0 ''/d/a/b'' = None" by (simp add: world0_def)
  have p488: "fi_perm ?sd = 488" by (rule info_examples)
  note r = C5_directory_step [OF world0_Stat(1) near2 plain2]
  from r have "validateDirExistance world0 ''/s/a/b/f'' ''/d/a/b/f''
     = Some (case ftable world0 ''/d/a/b'' of
               Some dd \<Rightarrow> Inr (world0\<lparr>ftable := (ftable world0)
                                   (''/d/a/b'' \<mapsto> dd\<lparr>n_perm := fi_perm ?sd\<rparr>)\<rparr>)
             | None \<Rightarrow>
                 (case os_MkdirAll world0 ''/d/a/b'' (fi_perm ?sd) of
                    Inl e \<Rightarrow> Inl (PanicErr e)
                  | Inr w1 \<Rightarrow> Inr (printf w1 LogWrite ''/d/a/b'')))"
    by (rule conjunct1)
  then have b: "validateDirExistance world0 ''/s/a/b/f'' ''/d/a/b/f''
     = Some (Inr (printf (world0\<lparr>ftable := (ftable world0)(''/d/a/b'' \<mapsto> mk_dir 488 1000)\<rparr>)
                    LogWrite ''/d/a/b''))"
    by (simp only: none option.case p488 world0_MkdirAll sum.case)
  from r have "\<forall>w1. os_MkdirAll world0 ''/d/a/b'' (fi_perm ?sd) = Inr w1
                  \<longrightarrow> only_adds_dirs world0 (fi_perm ?sd) w1"
    by (rule conjunct2)
  then have c: "only_adds_dirs world0 488
        (world0\<lparr>ftable := (ftable world0)(''/d/a/b'' \<mapsto> mk_dir 488 1000)\<rparr>)"
    unfolding p488 using world0_MkdirAll by blast
  from a b c show ?thesis by simp
qed

text \<open>
  Not every ancestor is reconciled: the Write of \<^verbatim>\<open>/s/a/b/f\<close> into a destination that has
  \<^verbatim>\<open>/d/a\<close> with mode 0777 makes \<^verbatim>\<open>/d/a/b\<close> and leaves \<^verbatim>\<open>/d/a\<close> as it was,
  although the source ancestor \<^verbatim>\<open>/s/a\<close> has mode 0700.
\<close>

theorem C5_ancestor_not_reconciled:
  "validateDirExistance world0 ''/s/a/b/f'' ''/d/a/b/f''
     = Some (Inr (world0\<lparr>ftable := (ftable world0)(''/d/a/b'' \<mapsto> mk_dir 488 1000),
                         out := [LogWrite 1000 ''/d/a/b'']\<rparr>))
   \<and> ftable world0 ''/s/a'' = Some (mk_dir 448 2)
   \<and> ftable world0 ''/d/a'' = Some (mk_dir 511 6)"
  using world0_validate_f by (simp add: world0_def)




text \<open>
  A source entry that is a symbolic link to a regular file: \<^verbatim>\<open>Stat\<close> follows the
  link, so the bytes of the target are copied; the permission bits and the
  modification time set afterwards are those of the link.
\<close>

lemma write_symlink_copies_target:
  "writeFile world2 ''/s/l'' (Some (info_of (mk_link 511 7 ''/s/t''))) ''/d/l''
     = Some (Inr (world2\<lparr>ftable := (ftable world2)(''/d/l'' \<mapsto> mk_file 511 7 ''X''),
                          out := [LogWrite 3000 ''/d/l'']\<rparr>))"
proof -
  let ?sf = "info_of (mk_link 511 7 ''/s/t'')"
  let ?nf = "new_file world2 438"
  let ?w1 = "world2\<lparr>ftable := (ftable world2)(''/d/l'' \<mapsto> ?nf)\<rparr>"
  let ?n2 = "?nf\<lparr>n_mtime := now ?w1, n_size := 1, n_data := ''X''\<rparr>"
  let ?w2 = "?w1\<lparr>ftable := (ftable ?w1)(''/d/l'' \<mapsto> ?n2)\<rparr>"
  have none: "ftable world2 ''/d/l'' = None" by (simp add: world2_def)
  have dir: "Dir ''/d/l'' = ''/d''" by (simp add: Dir_def Clean_def clean_step_def)
  have cr: "os_Create world2 ''/d/l'' = Inr (?w1, ''/d/l'')"
    by (rule os_Create_absent [OF none, where d = "mk_dir 493 5"])
       (simp_all add: dir world2_def mk_dir_def)
  have ic: "io_Copy ?w1 ''/d/l'' ''/s/t'' = Inr (1, ?w2)"
    by (simp add: io_Copy_def Let_def) (simp add: world2_def mk_file_def)
  have cp: "copyFile world2 ''/s/l'' ''/d/l'' = Inr ?w2"
    by (simp add: copyFile_def world2_Stat info_examples cr ic)
       (simp add: info_of_def mk_file_def)
  have nt: "n_type ?n2 \<noteq> Symlink" by (simp add: new_file_def)
  have ch: "os_Chmod ?w2 ''/d/l'' (fi_perm ?sf)
              = Inr (?w2\<lparr>ftable := (ftable ?w2)(''/d/l'' \<mapsto> ?n2\<lparr>n_perm := fi_perm ?sf\<rparr>)\<rparr>)"
    by (rule os_Chmod_plain [OF _ nt]) simp
  let ?w3 = "?w2\<lparr>ftable := (ftable ?w2)(''/d/l'' \<mapsto> ?n2\<lparr>n_perm := fi_perm ?sf\<rparr>)\<rparr>"
  have nt3: "n_type (?n2\<lparr>n_perm := fi_perm ?sf\<rparr>) \<noteq> Symlink" by (simp add: new_file_def)
  have ct: "os_Chtimes ?w3 ''/d/l'' (fi_modTime ?sf)
              = Inr (?w3\<lparr>ftable := (ftable ?w3)
                      (''/d/l'' \<mapsto> ?n2\<lparr>n_perm := fi_perm ?sf, n_mtime := fi_modTime ?sf\<rparr>)\<rparr>)"
    by (rule os_Chtimes_plain [OF _ nt3]) simp
  let ?w4 = "?w3\<lparr>ftable := (ftable ?w3)
                      (''/d/l'' \<mapsto> ?n2\<lparr>n_perm := fi_perm ?sf, n_mtime := fi_modTime ?sf\<rparr>)\<rparr>"
  have wc: "write_copy world2 ''/s/l'' ?sf ''/d/l'' = Inr (printf ?w4 LogWrite ''/d/l'')"
    by (simp only: write_copy_def cp ch ct sum.case)
  have fin: "printf ?w4 LogWrite ''/d/l''
      = world2\<lparr>ftable := (ftable world2)(''/d/l'' \<mapsto> mk_file 511 7 ''X''),
                out := [LogWrite 3000 ''/d/l'']\<rparr>"
    by (simp add: printf_def new_file_def mk_file_def mk_link_def info_of_def)
       (simp add: world2_def)
  have nd: "\<not> IsDir ?sf" by (simp add: IsDir_def info_of_def mk_link_def)
  have "writeFile world2 ''/s/l'' (Some ?sf) ''/d/l''
          = Some (write_copy world2 ''/s/l'' ?sf ''/d/l'')"
    by (simp add: writeFile_def world2_validate_link nd os_Stat_absent [OF none])
  then show ?thesis by (simp only: wc fin)
qed

section \<open>Properties of the scan loop\<close>

lemma filter_update_count:
  "i < length xs \<Longrightarrow>
   length (filter P (xs[i := v])) + (if P (xs ! i) then 1 else 0)
     = length (filter P xs) + (if P v then 1 else 0)"
proof (induction xs arbitrary: i)
  case Nil
  then show ?case by simp
next
  case (Cons x xs)
  show ?case
  proof (cases i)
    case 0
    then show ?thesis by simp
  next
    case (Suc j)
    with Cons.prems have "j < length xs" by simp
    from Cons.IH [OF this] Suc show ?thesis by simp
  qed
qed

lemma unfinished_keep:
  "i < length st \<Longrightarrow> st ! i \<noteq> Finished \<Longrightarrow> v \<noteq> Finished \<Longrightarrow>
   unfinished (st[i := v]) = unfinished st"
  using filter_update_count [of i st "\<lambda>u. u \<noteq> Finished" v]
  by (simp add: unfinished_def)

lemma unfinished_finish:
  "i < length st \<Longrightarrow> st ! i \<noteq> Finished \<Longrightarrow>
   int (unfinished (st[i := Finished])) = int (unfinished st) - 1"
  using filter_update_count [of i st "\<lambda>u. u \<noteq> Finished" Finished]
  by (simp add: unfinished_def)

lemma unfinished_zero: "unfinished st = 0 \<longleftrightarrow> set st \<subseteq> {Finished}"
  by (auto simp: unfinished_def filter_empty_conv)

lemma unfinished_replicate: "unfinished (replicate n NotLaunched) = n"
  by (simp add: unfinished_def)

lemma count_stat_move:
  "i < length st \<Longrightarrow> st ! i = a \<Longrightarrow> a \<noteq> b \<Longrightarrow>
   count_stat b (st[i := b]) = Suc (count_stat b st)
   \<and> Suc (count_stat a (st[i := b])) = count_stat a st
   \<and> (c \<noteq> a \<longrightarrow> c \<noteq> b \<longrightarrow> count_stat c (st[i := b]) = count_stat c st)"
  using filter_update_count [of i st "\<lambda>u. u = b" b]
        filter_update_count [of i st "\<lambda>u. u = a" b]
        filter_update_count [of i st "\<lambda>u. u = c" b]
  by (auto simp: count_stat_def)

lemma count_busy_move:
  "w < length ws \<Longrightarrow> ws ! w \<noteq> Busy \<Longrightarrow> count_busy (ws[w := Busy]) = Suc (count_busy ws)"
  "w < length ws \<Longrightarrow> ws ! w = Busy \<Longrightarrow> v \<noteq> Busy \<Longrightarrow> Suc (count_busy (ws[w := v])) = count_busy ws"
  "w < length ws \<Longrightarrow> ws ! w \<noteq> Busy \<Longrightarrow> v \<noteq> Busy \<Longrightarrow> count_busy (ws[w := v]) = count_busy ws"
  using filter_update_count [of w ws "\<lambda>u. u = Busy" Busy]
        filter_update_count [of w ws "\<lambda>u. u = Busy" v]
  by (auto simp: count_busy_def)

lemma plan_cycle_count:
  assumes "distinct (map fst srcFiles)" "distinct (map fst destFiles)"
  shows "\<exists>jobs. plan_cycle configs srcFiles destFiles = Inr (jobs, int (length jobs))"
proof -
  have le: "card (keys srcFiles \<inter> keys destFiles) \<le> length destFiles"
    by (rule card_shared_le [OF assms(2)])
  have lo: "length (orphans srcFiles destFiles)
              = length destFiles - card (keys srcFiles \<inter> keys destFiles)"
    by (rule length_orphans [OF assms(2)])
  from le lo have "int (length srcFiles) + int (length destFiles)
        - int (card (keys srcFiles \<inter> keys destFiles))
      = int (length (map (write_job configs) srcFiles
                @ map (delete_job configs) (orphans srcFiles destFiles)))"
    by simp
  with plan_cycle_result [OF assms, of configs] show ?thesis by metis
qed

lemma start_cycle_inv:
  assumes "distinct (map fst srcFiles)" "distinct (map fst destFiles)"
  shows "loop_inv configs (start_cycle configs n srcFiles destFiles)"
proof -
  from plan_cycle_count [OF assms, of configs]
  obtain jobs where "plan_cycle configs srcFiles destFiles = Inr (jobs, int (length jobs))"
    by blast
  then show ?thesis
    by (simp add: start_cycle_def loop_inv_def unfinished_replicate set_replicate_conv_if)
qed

lemma start_cycle_pool:
  assumes "distinct (map fst srcFiles)" "distinct (map fst destFiles)"
  shows "pool_inv configs (start_cycle configs n srcFiles destFiles)"
proof -
  from plan_cycle_count [OF assms, of configs]
  obtain jobs where "plan_cycle configs srcFiles destFiles = Inr (jobs, int (length jobs))"
    by blast
  then show ?thesis
    by (simp add: start_cycle_def pool_inv_def count_stat_def count_busy_def)
qed

lemma running_pc:
  assumes inv: "loop_inv configs s" and i: "i < length (l_stat s)" "l_stat s ! i = Running"
  shows "l_pc s = Wait \<or> (\<exists>n. l_pc s = Launch n \<and> i < n)"
proof (cases "l_pc s")
  case (StartWorkers j)
  with inv have "set (l_stat s) \<subseteq> {NotLaunched}" by (simp add: loop_inv_def)
  with i show ?thesis by (auto dest!: nth_mem)
next
  case (Launch n)
  show ?thesis
  proof (cases "i < n")
    case True
    with Launch show ?thesis by simp
  next
    case False
    with i have "l_stat s ! i \<in> set (drop n (l_stat s))"
      by (auto simp: in_set_conv_nth intro!: exI [of _ "i - n"])
    moreover from inv Launch have "set (drop n (l_stat s)) \<subseteq> {NotLaunched}"
      by (simp add: loop_inv_def)
    ultimately show ?thesis using i by auto
  qed
next
  case Wait
  then show ?thesis by simp
next
  case (Signal n)
  with inv have "unfinished (l_stat s) = 0" by (simp add: loop_inv_def)
  with i show ?thesis by (auto simp: unfinished_zero dest!: nth_mem)
next
  case Sleep
  with inv have "unfinished (l_stat s) = 0" by (simp add: loop_inv_def)
  with i show ?thesis by (auto simp: unfinished_zero dest!: nth_mem)
qed

lemma loop_inv_workers [simp]:
  "loop_inv configs (s\<lparr>l_workers := ws\<rparr>) = loop_inv configs s"
  by (simp add: loop_inv_def split: dpc.splits)

lemma loop_inv_crashed [simp]:
  "loop_inv configs (s\<lparr>l_crashed := b\<rparr>) = loop_inv configs s"
  by (simp add: loop_inv_def split: dpc.splits)

lemma job_done_inv:
  assumes inv: "loop_inv configs s" and i: "i < length (l_stat s)" "l_stat s ! i = Running"
  shows "loop_inv configs (job_done s i)"
proof -
  note pc = running_pc [OF inv i]
  from i have nf: "l_stat s ! i \<noteq> Finished" by simp
  from inv have wg: "l_wg s = int (unfinished (l_stat s))" by (simp add: loop_inv_def)
  have "unfinished (l_stat s) \<noteq> 0"
    using i by (auto simp: unfinished_zero dest!: nth_mem)
  with wg have d: "wg_Done (l_wg s) = Inr (l_wg s - 1)"
    by (simp add: wg_Done_def wg_Add_def)
  then have jd: "job_done s i = s\<lparr>l_wg := l_wg s - 1, l_stat := (l_stat s)[i := Finished]\<rparr>"
    by (simp add: job_done_def)
  show ?thesis
    unfolding jd
    using inv pc i unfinished_finish [OF i(1) nf]
    by (auto simp: loop_inv_def drop_update_cancel)
qed

lemma launch_inv:
  assumes inv: "loop_inv configs s" and pc: "l_pc s = Launch i" and i: "i < length (l_jobs s)"
  shows "loop_inv configs (s\<lparr>l_stat := (l_stat s)[i := Pending], l_pc := Launch (Suc i)\<rparr>)"
proof -
  from inv have len: "length (l_stat s) = length (l_jobs s)"
    and fr: "set (drop i (l_stat s)) \<subseteq> {NotLaunched}"
    using pc by (simp_all add: loop_inv_def)
  from i len have "l_stat s ! i \<in> set (drop i (l_stat s))"
    by (auto simp: in_set_conv_nth intro!: exI [of _ 0])
  with fr have nl: "l_stat s ! i = NotLaunched" by auto
  have "set (drop (Suc i) (l_stat s)) \<subseteq> set (drop i (l_stat s))"
    by (rule set_drop_subset_set_drop) simp
  with fr have fr': "set (drop (Suc i) (l_stat s)) \<subseteq> {NotLaunched}" by blast
  from i len nl have "unfinished ((l_stat s)[i := Pending]) = unfinished (l_stat s)"
    by (intro unfinished_keep) simp_all
  with inv fr' show ?thesis
    by (simp add: loop_inv_def drop_update_cancel)
qed

lemma status_inv:
  assumes inv: "loop_inv configs s" and i: "i < length (l_stat s)"
    and old: "l_stat s ! i = Pending" 
  shows "loop_inv configs (s\<lparr>l_stat := (l_stat s)[i := Running]\<rparr>)"
proof -
  have u: "unfinished ((l_stat s)[i := Running]) = unfinished (l_stat s)"
    using i old by (intro unfinished_keep) simp_all
  have sub: "\<And>n. set (drop n (l_stat s)) \<subseteq> {NotLaunched}
                \<Longrightarrow> set (drop n ((l_stat s)[i := Running])) \<subseteq> {NotLaunched}"
  proof -
    fix n assume a: "set (drop n (l_stat s)) \<subseteq> {NotLaunched}"
    show "set (drop n ((l_stat s)[i := Running])) \<subseteq> {NotLaunched}"
    proof (cases "i < n")
      case True
      with a show ?thesis by (simp add: drop_update_cancel)
    next
      case False
      with i have "l_stat s ! i \<in> set (drop n (l_stat s))"
        by (auto simp: in_set_conv_nth intro!: exI [of _ "i - n"])
      with a old show ?thesis by auto
    qed
  qed
  from sub [of 0] have sub0: "set (l_stat s) \<subseteq> {NotLaunched}
      \<Longrightarrow> set ((l_stat s)[i := Running]) \<subseteq> {NotLaunched}" by simp
  show ?thesis
    using inv u sub sub0
    by (cases "l_pc s") (simp_all add: loop_inv_def)
qed

lemma fire_inv:
  assumes inv: "loop_inv configs s" and f: "fire configs ev s = Some s'"
  shows "loop_inv configs s'"
proof (cases ev)
  case EvStartWorker
  with f inv show ?thesis
    by (auto simp: fire_def Let_def loop_inv_def split: if_splits dpc.splits)
next
  case EvLoopEnd
  with f inv show ?thesis
    by (auto simp: fire_def Let_def loop_inv_def split: if_splits dpc.splits)
next
  case EvLaunch
  with f obtain i where "l_pc s = Launch i" "i < length (l_jobs s)"
    and "s' = s\<lparr>l_stat := (l_stat s)[i := Pending], l_pc := Launch (Suc i)\<rparr>"
    by (auto simp: fire_def Let_def split: if_splits dpc.splits)
  with launch_inv [OF inv] show ?thesis by simp
next
  case (EvBegin i)
  with f have "i < length (l_stat s)" "l_stat s ! i = Pending"
    and "s' = s\<lparr>l_stat := (l_stat s)[i := Running]\<rparr>"
    by (auto simp: fire_def Let_def split: if_splits)
  with status_inv [OF inv] show ?thesis by simp
next
  case (EvReturn i)
  with f have "i < length (l_stat s)" "l_stat s ! i = Running" and "s' = job_done s i"
    by (auto simp: fire_def Let_def split: if_splits)
  with job_done_inv [OF inv] show ?thesis by simp
next
  case (EvReceive w i)
  with f have "i < length (l_stat s)" "l_stat s ! i = Pending"
    and "s' = s\<lparr>l_stat := (l_stat s)[i := Running], l_workers := (l_workers s)[w := Busy]\<rparr>"
    by (auto simp: fire_def Let_def split: if_splits)
  with status_inv [OF inv] show ?thesis by simp
next
  case (EvWorkerReturn w i)
  with f have i: "i < length (l_stat s)" "l_stat s ! i = Running"
    and s': "s' = job_done (s\<lparr>l_workers := (l_workers s)[w := Idle]\<rparr>) i"
    by (auto simp: fire_def Let_def split: if_splits)
  let ?s = "s\<lparr>l_workers := (l_workers s)[w := Idle]\<rparr>"
  have "loop_inv configs ?s" using inv by simp
  from job_done_inv [OF this, of i] i s' show ?thesis by simp
next
  case (EvPanic i)
  with f inv show ?thesis
    by (auto simp: fire_def Let_def split: if_splits)
next
  case EvWaitPass
  with f inv show ?thesis
    by (auto simp: fire_def Let_def loop_inv_def split: if_splits)
next
  case (EvSendDone w)
  with f inv show ?thesis
    by (auto simp: fire_def Let_def loop_inv_def split: if_splits dpc.splits)
next
  case (EvNextCycle srcFiles destFiles)
  with f have "distinct (map fst srcFiles)" "distinct (map fst destFiles)"
    and "s' = start_cycle configs (Suc (l_cycle s)) srcFiles destFiles"
    by (auto simp: fire_def Let_def split: if_splits)
  with start_cycle_inv show ?thesis by simp
qed



lemma job_done_eq:
  assumes inv: "loop_inv configs s" and i: "i < length (l_stat s)" "l_stat s ! i = Running"
  shows "job_done s i = s\<lparr>l_wg := l_wg s - 1, l_stat := (l_stat s)[i := Finished]\<rparr>"
proof -
  from inv have wg: "l_wg s = int (unfinished (l_stat s))" by (simp add: loop_inv_def)
  have "unfinished (l_stat s) \<noteq> 0"
    using i by (auto simp: unfinished_zero dest!: nth_mem)
  with wg have "wg_Done (l_wg s) = Inr (l_wg s - 1)"
    by (simp add: wg_Done_def wg_Add_def)
  then show ?thesis by (simp add: job_done_def)
qed

lemma count_busy_append_Idle: "count_busy (ws @ [Idle]) = count_busy ws"
  by (simp add: count_busy_def)

lemma fire_pool:
  assumes inv: "loop_inv configs s" and pool: "pool_inv configs s"
    and f: "fire configs ev s = Some s'"
  shows "pool_inv configs s'"
proof (cases "MaxConcurrentWorkers (General configs) < 1")
  case True
  with pool have ws: "l_workers s = []" by (simp add: pool_inv_def)
  show ?thesis
  proof (cases ev)
    case (EvNextCycle srcFiles destFiles)
    with f have "distinct (map fst srcFiles)" "distinct (map fst destFiles)"
      and "s' = start_cycle configs (Suc (l_cycle s)) srcFiles destFiles"
      by (auto simp: fire_def Let_def split: if_splits)
    with start_cycle_pool show ?thesis by simp
  next
    case (EvReturn i)
    with f True have "s' = job_done s i"
      by (auto simp: fire_def Let_def split: if_splits)
    with True ws show ?thesis
      by (simp add: pool_inv_def job_done_def split: sum.splits)
  qed (use f True ws in \<open>auto simp: fire_def Let_def pool_inv_def split: if_splits dpc.splits\<close>)
next
  case False
  let ?k = "MaxConcurrentWorkers (General configs)"
  from False pool have rb: "count_stat Running (l_stat s) = count_busy (l_workers s)"
    and pk: "int (count_stat Pending (l_stat s)) \<le> ?k"
    and wk: "case l_pc s of
               StartWorkers i \<Rightarrow> length (l_workers s) = i \<and> int i \<le> ?k
             | _ \<Rightarrow> int (length (l_workers s)) = ?k"
    by (simp_all add: pool_inv_def Let_def)
  show ?thesis
  proof (cases ev)
    case EvStartWorker
    with f False rb pk wk show ?thesis
      by (auto simp: fire_def Let_def pool_inv_def count_busy_append_Idle
               split: if_splits dpc.splits)
  next
    case EvLoopEnd
    with f False rb pk wk show ?thesis
      by (auto simp: fire_def Let_def pool_inv_def split: if_splits dpc.splits)
  next
    case EvLaunch
    with f False obtain i where pc: "l_pc s = Launch i" and i: "i < length (l_jobs s)"
      and room: "int (count_stat Pending (l_stat s)) < ?k"
      and s': "s' = s\<lparr>l_stat := (l_stat s)[i := Pending], l_pc := Launch (Suc i)\<rparr>"
      by (auto simp: fire_def Let_def split: if_splits dpc.splits)
    from inv pc have len: "length (l_stat s) = length (l_jobs s)"
      and fr: "set (drop i (l_stat s)) \<subseteq> {NotLaunched}"
      by (simp_all add: loop_inv_def)
    from i len have "l_stat s ! i \<in> set (drop i (l_stat s))"
      by (auto simp: in_set_conv_nth intro!: exI [of _ 0])
    with fr have nl: "l_stat s ! i = NotLaunched" by auto
    from i len have il: "i < length (l_stat s)" by simp
    note m = count_stat_move [OF il nl, of Pending Running]
    from m rb room wk pc False show ?thesis
      unfolding s' by (simp add: pool_inv_def Let_def)
  next
    case (EvBegin i)
    with f False show ?thesis by (auto simp: fire_def Let_def split: if_splits)
  next
    case (EvReturn i)
    with f False show ?thesis by (auto simp: fire_def Let_def split: if_splits)
  next
    case (EvReceive w i)
    with f have w: "w < length (l_workers s)" "l_workers s ! w = Idle"
      and i: "i < length (l_stat s)" "l_stat s ! i = Pending"
      and s': "s' = s\<lparr>l_stat := (l_stat s)[i := Running],
                        l_workers := (l_workers s)[w := Busy]\<rparr>"
      by (auto simp: fire_def Let_def split: if_splits)
    note m = count_stat_move [OF i, of Running Finished]
    from w have b: "count_busy ((l_workers s)[w := Busy]) = Suc (count_busy (l_workers s))"
      by (intro count_busy_move) simp_all
    from m b rb pk wk False show ?thesis
      unfolding s' by (auto simp: pool_inv_def Let_def split: dpc.splits)
  next
    case (EvWorkerReturn w i)
    with f have w: "w < length (l_workers s)" "l_workers s ! w = Busy"
      and i: "i < length (l_stat s)" "l_stat s ! i = Running"
      and s': "s' = job_done (s\<lparr>l_workers := (l_workers s)[w := Idle]\<rparr>) i"
      by (auto simp: fire_def Let_def split: if_splits)
    let ?s = "s\<lparr>l_workers := (l_workers s)[w := Idle]\<rparr>"
    have "loop_inv configs ?s" using inv by simp
    from job_done_eq [OF this, of i] i
    have jd: "s' = ?s\<lparr>l_wg := l_wg ?s - 1, l_stat := (l_stat ?s)[i := Finished]\<rparr>"
      unfolding s' by simp
    note m = count_stat_move [OF i, of Finished Pending]
    from w have b: "Suc (count_busy ((l_workers s)[w := Idle])) = count_busy (l_workers s)"
      by (intro count_busy_move) simp_all
    from m b rb pk wk False show ?thesis
      unfolding jd by (auto simp: pool_inv_def Let_def split: dpc.splits)
  next
    case (EvPanic i)
    with f False rb pk wk show ?thesis
      by (auto simp: fire_def Let_def pool_inv_def split: if_splits dpc.splits)
  next
    case EvWaitPass
    with f False rb pk wk show ?thesis
      by (auto simp: fire_def Let_def pool_inv_def split: if_splits dpc.splits)
  next
    case (EvSendDone w)
    with f False obtain n where pc: "l_pc s = Signal n"
      and w: "w < length (l_workers s)" "l_workers s ! w = Idle"
      and s': "s' = s\<lparr>l_workers := (l_workers s)[w := Exited], l_pc := Signal (Suc n)\<rparr>"
      by (auto simp: fire_def Let_def split: if_splits dpc.splits)
    from w have b: "count_busy ((l_workers s)[w := Exited]) = count_busy (l_workers s)"
      by (intro count_busy_move) simp_all
    from b rb pk wk pc False show ?thesis
      unfolding s' by (simp add: pool_inv_def Let_def)
  next
    case (EvNextCycle srcFiles destFiles)
    with f have "distinct (map fst srcFiles)" "distinct (map fst destFiles)"
      and "s' = start_cycle configs (Suc (l_cycle s)) srcFiles destFiles"
      by (auto simp: fire_def Let_def split: if_splits)
    with start_cycle_pool show ?thesis by simp
  qed
qed

lemma run_invs:
  "loop_inv configs s \<Longrightarrow> pool_inv configs s \<Longrightarrow> run configs s evs = Some s' \<Longrightarrow>
   loop_inv configs s' \<and> pool_inv configs s'"
proof (induction evs arbitrary: s)
  case Nil
  then show ?case by simp
next
  case (Cons ev evs)
  from Cons.prems(3) obtain s1 where f: "fire configs ev s = Some s1"
    and r: "run configs s1 evs = Some s'"
    by (auto split: option.splits)
  from Cons.IH [OF fire_inv [OF Cons.prems(1) f] fire_pool [OF Cons.prems(1,2) f] r]
  show ?case .
qed

lemma count_busy_le: "count_busy ws \<le> length ws"
  by (simp add: count_busy_def)

lemma run_append:
  "run configs s (xs @ ys) =
     (case run configs s xs of None \<Rightarrow> None | Some s1 \<Rightarrow> run configs s1 ys)"
  by (induction xs arbitrary: s) (auto split: option.splits)

lemma replicate_step:
  "(replicate i a @ b # ys)[i := a] = a # replicate i a @ ys"
proof -
  have "(replicate i a @ b # ys)[length (replicate i a) := a] = replicate i a @ a # ys"
    by (rule list_update_length)
  moreover have "replicate i a @ a # ys = a # replicate i a @ ys"
    by (induction i) simp_all
  ultimately show ?thesis by simp
qed

lemma launch_all:
  "\<not> l_crashed s \<Longrightarrow> MaxConcurrentWorkers (General configs) < 1 \<Longrightarrow>
   l_pc s = Launch i \<Longrightarrow>
   l_stat s = replicate i Pending @ replicate m NotLaunched \<Longrightarrow>
   length (l_jobs s) = i + m \<Longrightarrow>
   run configs s (replicate m EvLaunch)
     = Some (s\<lparr>l_stat := replicate (i + m) Pending, l_pc := Launch (i + m)\<rparr>)"
proof (induction m arbitrary: s i)
  case 0
  then show ?case by simp
next
  case (Suc m)
  let ?s1 = "s\<lparr>l_stat := (l_stat s)[i := Pending], l_pc := Launch (Suc i)\<rparr>"
  have f: "fire configs EvLaunch s = Some ?s1"
    using Suc.prems by (simp add: fire_def Let_def)
  have st: "l_stat ?s1 = replicate (Suc i) Pending @ replicate m NotLaunched"
    using Suc.prems(4) by (simp add: replicate_step)
  have "run configs ?s1 (replicate m EvLaunch)
          = Some (?s1\<lparr>l_stat := replicate (Suc i + m) Pending, l_pc := Launch (Suc i + m)\<rparr>)"
    by (rule Suc.IH) (use Suc.prems st in simp_all)
  with f show ?case by simp
qed

lemma begin_all:
  "\<not> l_crashed s \<Longrightarrow> MaxConcurrentWorkers (General configs) < 1 \<Longrightarrow>
   l_stat s = replicate i Running @ replicate m Pending \<Longrightarrow>
   run configs s (map EvBegin [i..<i + m])
     = Some (s\<lparr>l_stat := replicate (i + m) Running\<rparr>)"
proof (induction m arbitrary: s i)
  case 0
  then show ?case by simp
next
  case (Suc m)
  let ?s1 = "s\<lparr>l_stat := (l_stat s)[i := Running]\<rparr>"
  have f: "fire configs (EvBegin i) s = Some ?s1"
    using Suc.prems by (simp add: fire_def Let_def nth_append)
  have st: "l_stat ?s1 = replicate (Suc i) Running @ replicate m Pending"
    using Suc.prems(3) by (simp add: replicate_step)
  have "run configs ?s1 (map EvBegin [Suc i..<Suc i + m])
          = Some (?s1\<lparr>l_stat := replicate (Suc i + m) Running\<rparr>)"
    by (rule Suc.IH) (use Suc.prems st in simp_all)
  moreover have "[i..<i + Suc m] = i # [Suc i..<Suc i + m]"
    by (simp add: upt_rec)
  ultimately show ?case using f by simp
qed

text \<open>Without a limit, a schedule exists on which all operations of the cycle run at once.\<close>

lemma unbounded_all_running:
  assumes d: "distinct (map fst srcFiles)" "distinct (map fst destFiles)"
    and k: "MaxConcurrentWorkers (General configs) < 1"
  shows "\<exists>evs s. run configs (start_cycle configs 0 srcFiles destFiles) evs = Some s
           \<and> length (l_jobs s) = card (keys srcFiles \<union> keys destFiles)
           \<and> l_stat s = replicate (length (l_jobs s)) Running"
proof -
  let ?jobs = "map (write_job configs) srcFiles
                 @ map (delete_job configs) (orphans srcFiles destFiles)"
  let ?n = "length ?jobs"
  let ?s0 = "start_cycle configs 0 srcFiles destFiles"
  from plan_cycle_result [OF d, of configs]
  have s0: "l_jobs ?s0 = ?jobs" "l_stat ?s0 = replicate ?n NotLaunched"
    "l_pc ?s0 = Launch 0" "\<not> l_crashed ?s0"
    using k by (simp_all add: start_cycle_def)
  let ?s1 = "?s0\<lparr>l_stat := replicate (0 + ?n) Pending, l_pc := Launch (0 + ?n)\<rparr>"
  have r1: "run configs ?s0 (replicate ?n EvLaunch) = Some ?s1"
    by (rule launch_all) (use s0 k in simp_all)
  let ?s2 = "?s1\<lparr>l_stat := replicate (0 + ?n) Running\<rparr>"
  have r2: "run configs ?s1 (map EvBegin [0..<0 + ?n]) = Some ?s2"
    by (rule begin_all) (use s0 k in simp_all)
  have r: "run configs ?s0 (replicate ?n EvLaunch @ map EvBegin [0..<0 + ?n]) = Some ?s2"
    by (simp only: run_append r1 r2 option.case)
  have od: "distinct (map fst (orphans srcFiles destFiles))"
    using d(2) by (simp add: orphans_def distinct_map_filter)
  have "keys srcFiles \<union> keys destFiles = keys srcFiles \<union> keys (orphans srcFiles destFiles)"
    by (auto simp: keys_orphans)
  moreover have "keys srcFiles \<inter> keys (orphans srcFiles destFiles) = {}"
    by (auto simp: keys_orphans)
  moreover have "finite (keys srcFiles)" "finite (keys (orphans srcFiles destFiles))"
    by (simp_all add: keys_def)
  ultimately have "card (keys srcFiles \<union> keys destFiles)
      = card (keys srcFiles) + card (keys (orphans srcFiles destFiles))"
    by (simp add: card_Un_disjoint)
  then have n: "?n = card (keys srcFiles \<union> keys destFiles)"
    by (simp add: card_keys [OF d(1)] card_keys [OF od])
  have "length (l_jobs ?s2) = card (keys srcFiles \<union> keys destFiles)"
    "l_stat ?s2 = replicate (length (l_jobs ?s2)) Running"
    using s0 n by simp_all
  with r show ?thesis by blast
qed


text \<open>
  C8. On every schedule: without a limit (\<^verbatim>\<open>MaxConcurrentWorkers < 1\<close>) there are no
  workers, the launch of the next operation is never held back, and a schedule exists
  on which all operations of the cycle run at once; with a limit \<open>k\<close> there are
  never more than \<open>k\<close> running operations, never more than \<open>k\<close> operations in
  the channel, and exactly \<open>k\<close> workers once the starting loop is left.
\<close>

theorem C8_worker_pool:
  assumes "distinct (map fst srcFiles)" and "distinct (map fst destFiles)"
    and "run configs (start_cycle configs 0 srcFiles destFiles) evs = Some s"
  shows "(MaxConcurrentWorkers (General configs) < 1 \<longrightarrow>
            l_workers s = []
          \<and> (\<forall>i. \<not> l_crashed s \<and> l_pc s = Launch i \<and> i < length (l_jobs s)
                 \<longrightarrow> fire configs EvLaunch s \<noteq> None)
          \<and> (\<exists>evs' s'. run configs (start_cycle configs 0 srcFiles destFiles) evs' = Some s'
                 \<and> length (l_jobs s') = card (keys srcFiles \<union> keys destFiles)
                 \<and> l_stat s' = replicate (length (l_jobs s')) Running))
       \<and> (1 \<le> MaxConcurrentWorkers (General configs) \<longrightarrow>
            int (count_stat Running (l_stat s)) \<le> MaxConcurrentWorkers (General configs)
          \<and> int (count_stat Pending (l_stat s)) \<le> MaxConcurrentWorkers (General configs)
          \<and> int (length (l_workers s)) \<le> MaxConcurrentWorkers (General configs)
          \<and> ((\<forall>i. l_pc s \<noteq> StartWorkers i)
                \<longrightarrow> int (length (l_workers s)) = MaxConcurrentWorkers (General configs)))"
proof -
  let ?k = "MaxConcurrentWorkers (General configs)"
  have "loop_inv configs (start_cycle configs 0 srcFiles destFiles)"
    and "pool_inv configs (start_cycle configs 0 srcFiles destFiles)"
    by (rule start_cycle_inv [OF assms(1,2)], rule start_cycle_pool [OF assms(1,2)])
  from run_invs [OF this assms(3)] have pool: "pool_inv configs s" by simp
  have u: "?k < 1 \<longrightarrow>
            l_workers s = []
          \<and> (\<forall>i. \<not> l_crashed s \<and> l_pc s = Launch i \<and> i < length (l_jobs s)
                 \<longrightarrow> fire configs EvLaunch s \<noteq> None)
          \<and> (\<exists>evs' s'. run configs (start_cycle configs 0 srcFiles destFiles) evs' = Some s'
                 \<and> length (l_jobs s') = card (keys srcFiles \<union> keys destFiles)
                 \<and> l_stat s' = replicate (length (l_jobs s')) Running)"
  proof
    assume k: "?k < 1"
    with pool have "l_workers s = []" by (simp add: pool_inv_def)
    moreover have "\<forall>i. \<not> l_crashed s \<and> l_pc s = Launch i \<and> i < length (l_jobs s)
                 \<longrightarrow> fire configs EvLaunch s \<noteq> None"
      using k by (simp add: fire_def Let_def)
    ultimately show "l_workers s = []
          \<and> (\<forall>i. \<not> l_crashed s \<and> l_pc s = Launch i \<and> i < length (l_jobs s)
                 \<longrightarrow> fire configs EvLaunch s \<noteq> None)
          \<and> (\<exists>evs' s'. run configs (start_cycle configs 0 srcFiles destFiles) evs' = Some s'
                 \<and> length (l_jobs s') = card (keys srcFiles \<union> keys destFiles)
                 \<and> l_stat s' = replicate (length (l_jobs s')) Running)"
      using unbounded_all_running [OF assms(1,2) k] by blast
  qed
  have b: "1 \<le> ?k \<longrightarrow>
            int (count_stat Running (l_stat s)) \<le> ?k
          \<and> int (count_stat Pending (l_stat s)) \<le> ?k
          \<and> int (length (l_workers s)) \<le> ?k
          \<and> ((\<forall>i. l_pc s \<noteq> StartWorkers i) \<longrightarrow> int (length (l_workers s)) = ?k)"
  proof
    assume k: "1 \<le> ?k"
    with pool have rb: "count_stat Running (l_stat s) = count_busy (l_workers s)"
      and pk: "int (count_stat Pending (l_stat s)) \<le> ?k"
      and wk: "case l_pc s of
                 StartWorkers i \<Rightarrow> length (l_workers s) = i \<and> int i \<le> ?k
               | _ \<Rightarrow> int (length (l_workers s)) = ?k"
      by (simp_all add: pool_inv_def Let_def)
    from wk have wl: "int (length (l_workers s)) \<le> ?k"
      by (cases "l_pc s") simp_all
    from wk have we: "(\<forall>i. l_pc s \<noteq> StartWorkers i) \<longrightarrow> int (length (l_workers s)) = ?k"
      by (cases "l_pc s") simp_all
    from rb count_busy_le [of "l_workers s"] wl
    have "int (count_stat Running (l_stat s)) \<le> ?k" by linarith
    with pk wl we show "int (count_stat Running (l_stat s)) \<le> ?k
          \<and> int (count_stat Pending (l_stat s)) \<le> ?k
          \<and> int (length (l_workers s)) \<le> ?k
          \<and> ((\<forall>i. l_pc s \<noteq> StartWorkers i) \<longrightarrow> int (length (l_workers s)) = ?k)"
      by blast
  qed
  from u b show ?thesis by blast
qed

lemma example_plan:
  "plan_cycle config0 [(''/a'', None)] [(''/b'', None)]
     = Inr ([WriteJob ''/s/a'' None ''/d/a'', DeleteJob None ''/d/b''], 2)"
  "plan_cycle config1 [(''/a'', None)] [(''/b'', None)]
     = Inr ([WriteJob ''/s/a'' None ''/d/a'', DeleteJob None ''/d/b''], 2)"
  by (simp_all add: plan_cycle_def processChanges_def wg_Add_def write_job_def delete_job_def
        config0_def config1_def Join_def Clean_def clean_step_def)

lemma example_workers:
  "MaxConcurrentWorkers (General config0) = 0" "MaxConcurrentWorkers (General config1) = 1"
  by (simp_all add: config0_def config1_def)

lemma example_start:
  "start_cycle config0 0 [(''/a'', None)] [(''/b'', None)]
     = \<lparr>l_cycle = 0, l_jobs = [WriteJob ''/s/a'' None ''/d/a'', DeleteJob None ''/d/b''],
        l_wg = 2, l_pc = Launch 0, l_stat = [NotLaunched, NotLaunched], l_workers = [],
        l_crashed = False\<rparr>"
  "start_cycle config1 0 [(''/a'', None)] [(''/b'', None)]
     = \<lparr>l_cycle = 0, l_jobs = [WriteJob ''/s/a'' None ''/d/a'', DeleteJob None ''/d/b''],
        l_wg = 2, l_pc = StartWorkers 0, l_stat = [NotLaunched, NotLaunched], l_workers = [],
        l_crashed = False\<rparr>"
  by (simp_all add: start_cycle_def example_plan example_workers)

lemma example_run0:
  "run config0 (start_cycle config0 0 [(''/a'', None)] [(''/b'', None)])
     [EvLaunch, EvLaunch, EvLoopEnd, EvBegin 0, EvBegin 1, EvReturn 1, EvReturn 0, EvWaitPass]
   = Some \<lparr>l_cycle = 0, l_jobs = [WriteJob ''/s/a'' None ''/d/a'', DeleteJob None ''/d/b''],
           l_wg = 0, l_pc = Sleep, l_stat = [Finished, Finished], l_workers = [],
           l_crashed = False\<rparr>"
  by (simp add: example_start example_workers fire_def job_done_def wg_Done_def wg_Add_def)

lemma example_run1:
  "run config1 (start_cycle config1 0 [(''/a'', None)] [(''/b'', None)])
     [EvStartWorker, EvLoopEnd, EvLaunch, EvReceive 0 0, EvLaunch]
   = Some \<lparr>l_cycle = 0, l_jobs = [WriteJob ''/s/a'' None ''/d/a'', DeleteJob None ''/d/b''],
           l_wg = 2, l_pc = Launch 2, l_stat = [Running, Pending], l_workers = [Busy],
           l_crashed = False\<rparr>"
  by (simp add: example_start example_workers fire_def count_stat_def)

text \<open>
  With one worker the channel has room for one operation: a second send before any
  receive cannot fire, and neither can \<^verbatim>\<open>wg.Wait()\<close> return while an operation
  is unfinished.
\<close>

lemma example_blocked:
  "run config1 (start_cycle config1 0 [(''/a'', None)] [(''/b'', None)])
     [EvStartWorker, EvLoopEnd, EvLaunch, EvLaunch] = None"
  "run config0 (start_cycle config0 0 [(''/a'', None)] [(''/b'', None)])
     [EvLaunch, EvLaunch, EvLoopEnd, EvBegin 0, EvBegin 1, EvReturn 1, EvWaitPass] = None"
  by (simp_all add: example_start example_workers fire_def count_stat_def job_done_def
        wg_Done_def wg_Add_def)


theorem C8_worker_pool_witness:
  "(\<exists>s. run config1 (start_cycle config1 0 [(''/a'', None)] [(''/b'', None)])
          [EvStartWorker, EvLoopEnd, EvLaunch, EvReceive 0 0, EvLaunch] = Some s
      \<and> l_stat s = [Running, Pending]
      \<and> int (count_stat Running (l_stat s)) \<le> 1
      \<and> int (count_stat Pending (l_stat s)) \<le> 1
      \<and> int (length (l_workers s)) = 1)
   \<and> (\<exists>s. run config0 (start_cycle config0 0 [(''/a'', None)] [(''/b'', None)])
          [EvLaunch, EvLaunch, EvLoopEnd, EvBegin 0, EvBegin 1, EvReturn 1, EvReturn 0,
           EvWaitPass] = Some s
      \<and> l_workers s = [])"
proof
  let ?s = "\<lparr>l_cycle = 0, l_jobs = [WriteJob ''/s/a'' None ''/d/a'', DeleteJob None ''/d/b''],
           l_wg = 2, l_pc = Launch 2, l_stat = [Running, Pending], l_workers = [Busy],
           l_crashed = False\<rparr>"
  have d: "distinct (map fst [(''/a'', None :: fileinfo option)])"
    "distinct (map fst [(''/b'', None :: fileinfo option)])"
    by simp_all
  note k = example_workers(2)
  from C8_worker_pool [OF d example_run1]
  have "int (count_stat Running (l_stat ?s)) \<le> 1"
    "int (count_stat Pending (l_stat ?s)) \<le> 1"
    "int (length (l_workers ?s)) = 1"
    unfolding k by simp_all
  with example_run1
  show "\<exists>s. run config1 (start_cycle config1 0 [(''/a'', None)] [(''/b'', None)])
          [EvStartWorker, EvLoopEnd, EvLaunch, EvReceive 0 0, EvLaunch] = Some s
      \<and> l_stat s = [Running, Pending]
      \<and> int (count_stat Running (l_stat s)) \<le> 1
      \<and> int (count_stat Pending (l_stat s)) \<le> 1
      \<and> int (length (l_workers s)) = 1"
    by simp
next
  let ?s = "\<lparr>l_cycle = 0, l_jobs = [WriteJob ''/s/a'' None ''/d/a'', DeleteJob None ''/d/b''],
           l_wg = 0, l_pc = Sleep, l_stat = [Finished, Finished], l_workers = [],
           l_crashed = False\<rparr>"
  have d: "distinct (map fst [(''/a'', None :: fileinfo option)])"
    "distinct (map fst [(''/b'', None :: fileinfo option)])"
    by simp_all
  note k = example_workers(1)
  from C8_worker_pool [OF d example_run0]
  have "l_workers ?s = []"
    unfolding k by simp
  with example_run0
  show "\<exists>s. run config0 (start_cycle config0 0 [(''/a'', None)] [(''/b'', None)])
          [EvLaunch, EvLaunch, EvLoopEnd, EvBegin 0, EvBegin 1, EvReturn 1, EvReturn 0,
           EvWaitPass] = Some s
      \<and> l_workers s = []"
    by simp
qed

end
